theory Spec2Isabelle
  imports Complex_Main "HOL-Library.AList" "HOL-Library.Sublist"
begin

section \<open>Strings and dictionaries\<close>

text \<open>
  A Python \<open>str\<close> is a sequence of Unicode code points, so it is modelled as a list of
  naturals; the field names of the crawler are Cyrillic and are written out by code point.
  Tag and attribute names of the markup are only ever compared with ASCII constants and
  stay HOL strings.
\<close>

type_synonym pystr = "nat list"

definition ascii :: "string \<Rightarrow> pystr" where
  "ascii s = map of_char s"

text \<open>
  A \<open>dict\<close> keeps its keys in insertion order, and \<open>d[k] = v\<close> overwrites in place or
  appends at the end: that is \<open>AList.update\<close> on an association list. \<open>d.copy()\<close> is the
  list itself, since HOL values are never mutated.
\<close>

type_synonym pydict = "(pystr \<times> pystr) list"

definition keys :: "pydict \<Rightarrow> pystr set" where
  "keys d = fst ` set d"

section \<open>Constants of the module\<close>

definition SAVE_INTERVAL :: real where "SAVE_INTERVAL = 20"
definition MAX_RETRIES :: nat where "MAX_RETRIES = 50"
definition RETRY_DELAY :: nat where "RETRY_DELAY = 5"

section \<open>The fetcher\<close>

text \<open>
  A response carries its status code and the tree that
  \<open>BeautifulSoup(response.text, "html.parser")\<close> builds from its body; the tree type is
  a parameter here and fixed further down.

  \<open>requests.get(url, timeout=REQUEST_TIMEOUT)\<close> either returns a response or raises a
  \<open>RequestException\<close> (connection error, timeout). What a URL answers to the successive
  attempts is the environment: a function from the attempt number, counted from 0 as
  \<open>range(MAX_RETRIES)\<close> does, to the outcome of that request.
\<close>

datatype 'doc response = Response (status_code: int) (soup: 'doc)

datatype 'doc outcome = Returned "'doc response" | RequestException

text \<open>The effects of one call, in order: the GET of an attempt, and \<open>time.sleep\<close>.\<close>

datatype event = Get nat | Sleep nat

fun fetch_loop ::
  "(nat \<Rightarrow> 'doc outcome) \<Rightarrow> nat list \<Rightarrow> event list \<Rightarrow> 'doc response option \<times> event list" where
  "fetch_loop get [] tr = (None, tr)"
| "fetch_loop get (attempt # rest) tr =
     (case get attempt of
        Returned response \<Rightarrow>
          if status_code response = 200 then (Some response, tr @ [Get attempt])
          else if status_code response \<in> set [429, 503, 443]
            then fetch_loop get rest (tr @ [Get attempt, Sleep RETRY_DELAY])
            else (None, tr @ [Get attempt])
      | RequestException \<Rightarrow> fetch_loop get rest (tr @ [Get attempt, Sleep RETRY_DELAY]))"

definition fetch_url :: "(nat \<Rightarrow> 'doc outcome) \<Rightarrow> 'doc response option \<times> event list" where
  "fetch_url get = fetch_loop get [0..<MAX_RETRIES] []"

definition is_Get :: "event \<Rightarrow> bool" where
  "is_Get e = (case e of Get _ \<Rightarrow> True | Sleep _ \<Rightarrow> False)"

definition attempts :: "event list \<Rightarrow> nat" where
  "attempts tr = length (filter is_Get tr)"

definition sleeps :: "event list \<Rightarrow> nat" where
  "sleeps tr = length (filter (\<lambda>e. e = Sleep RETRY_DELAY) tr)"

text \<open>An attempt after which the loop sleeps and goes on.\<close>

definition retried :: "'doc outcome \<Rightarrow> bool" where
  "retried out =
     (case out of
        Returned response \<Rightarrow> status_code response \<in> set [429, 503, 443]
      | RequestException \<Rightarrow> True)"

text \<open>The events of the attempts \<open>a, \<dots>, b - 1\<close> when each of them is retried.\<close>

definition retry_events :: "nat \<Rightarrow> nat \<Rightarrow> event list" where
  "retry_events a b = concat (map (\<lambda>i. [Get i, Sleep RETRY_DELAY]) [a..<b])"

section \<open>Markup\<close>

text \<open>
  The tree of a parsed page, as \<open>bs4\<close> holds it: a node is a string or a tag with its
  name, its attributes and its children. The value of \<open>class\<close> is kept as the list of
  its whitespace-separated tokens, every other attribute as one string. Parsing itself
  (\<open>html.parser\<close>) is not part of the crawler: the pages are given as trees.
\<close>

datatype attr_value = AttrStr pystr | AttrList "pystr list"

datatype node =
    NavigableString pystr
  | Tag (name: string) (attrs: "(string \<times> attr_value) list") (contents: "node list")

text \<open>All nodes below a node, in document order; \<open>find_all\<close> and \<open>find\<close> search these.\<close>

fun descendants :: "node \<Rightarrow> node list" where
  "descendants (NavigableString s) = []"
| "descendants (Tag n a cs) = concat (map (\<lambda>c. c # descendants c) cs)"

definition find_all :: "(node \<Rightarrow> bool) \<Rightarrow> node \<Rightarrow> node list" where
  "find_all p el = filter p (descendants el)"

definition find_first :: "(node \<Rightarrow> bool) \<Rightarrow> node \<Rightarrow> node option" where
  "find_first p el = (case find_all p el of [] \<Rightarrow> None | n # _ \<Rightarrow> Some n)"

text \<open>\<open>.text\<close>: the strings below a node, concatenated.\<close>

fun get_text :: "node \<Rightarrow> pystr" where
  "get_text (NavigableString s) = s"
| "get_text (Tag n a cs) = concat (map get_text cs)"

text \<open>The three kinds of selector the crawler's deepest stage uses.\<close>

definition named :: "string \<Rightarrow> node \<Rightarrow> bool" where
  "named nm n = (case n of NavigableString _ \<Rightarrow> False | Tag t _ _ \<Rightarrow> t = nm)"

fun join_space :: "pystr list \<Rightarrow> pystr" where
  "join_space [] = []"
| "join_space [t] = t"
| "join_space (t # ts) = t @ 32 # join_space ts"

text \<open>
  \<open>{'class': v}\<close>: a token list matches when one token is \<open>v\<close> or when the tokens joined
  by single spaces are \<open>v\<close>.
\<close>

definition attr_is :: "string \<Rightarrow> pystr \<Rightarrow> node \<Rightarrow> bool" where
  "attr_is a v n =
     (case n of
        NavigableString _ \<Rightarrow> False
      | Tag _ as _ \<Rightarrow>
          (case map_of as a of
             None \<Rightarrow> False
           | Some (AttrStr s) \<Rightarrow> s = v
           | Some (AttrList toks) \<Rightarrow> v \<in> set toks \<or> join_space toks = v))"

text \<open>\<open>colspan=True\<close>: the attribute is present, whatever its value.\<close>

definition has_attr :: "string \<Rightarrow> node \<Rightarrow> bool" where
  "has_attr a n =
     (case n of NavigableString _ \<Rightarrow> False | Tag _ as _ \<Rightarrow> map_of as a \<noteq> None)"

text \<open>\<open>soup.find('table', {'class': 'b-table b-table_text-left'})\<close>\<close>

definition trim_table :: "node \<Rightarrow> bool" where
  "trim_table n \<longleftrightarrow> named ''table'' n \<and> attr_is ''class'' (ascii ''b-table b-table_text-left'') n"

text \<open>\<open>row.find('th', colspan=True)\<close>\<close>

definition section_cell :: "node \<Rightarrow> bool" where
  "section_cell n \<longleftrightarrow> named ''th'' n \<and> has_attr ''colspan'' n"

section \<open>Text clean-up\<close>

text \<open>
  The code points that \<open>str.strip()\<close> removes and that \<open>\s\<close> matches in a \<open>str\<close>
  pattern.
\<close>

definition isspace :: "nat \<Rightarrow> bool" where
  "isspace c \<longleftrightarrow>
     (9 \<le> c \<and> c \<le> 13) \<or> (28 \<le> c \<and> c \<le> 32) \<or> c = 133 \<or> c = 160 \<or> c = 5760
     \<or> (8192 \<le> c \<and> c \<le> 8202) \<or> c = 8232 \<or> c = 8233 \<or> c = 8239 \<or> c = 8287
     \<or> c = 12288"

definition strip :: "pystr \<Rightarrow> pystr" where
  "strip s = rev (dropWhile isspace (rev (dropWhile isspace s)))"

text \<open>\<open>re.sub(r'\s+', ' ', value)\<close>: every maximal run of whitespace becomes one space.\<close>

function collapse_spaces :: "pystr \<Rightarrow> pystr" where
  "collapse_spaces [] = []"
| "collapse_spaces (c # cs) =
     (if isspace c then 32 # collapse_spaces (dropWhile isspace cs)
      else c # collapse_spaces cs)"
  by pat_completeness auto
termination
  by (relation "measure length") (auto simp: less_Suc_eq_le length_dropWhile_le)

text \<open>\<open>sub in s\<close> on strings.\<close>

fun str_contains :: "pystr \<Rightarrow> pystr \<Rightarrow> bool" where
  "str_contains sub [] = (sub = [])"
| "str_contains sub (c # cs) = (prefix sub (c # cs) \<or> str_contains sub cs)"

section \<open>Field names\<close>

text \<open>
  The placeholder \<open>"-"\<close> and the fixed field names of the source, written by code point
  (the names are Russian; each constant is named after what its field holds). In the
  order of the definitions: the section label (\<open>U+041E U+0431 U+0449 U+0435 U+0435\<close>), the
  trim name, the production period, the recommended price in roubles, the engine make,
  the body make, the starred price (\<open>U+0426 U+0435 U+043D U+0430\<close> and \<open>*\<close>), and the
  comparison label that marks a header which is no field.
\<close>

definition DASH :: pystr where "DASH = [45]"

definition KEY_SECTION :: pystr where
  "KEY_SECTION = [1054, 1073, 1097, 1077, 1077]"

definition KEY_TRIM :: pystr where
  "KEY_TRIM = [1050, 1086, 1084, 1087, 1083, 1077, 1082, 1090, 1072, 1094, 1080, 1103]"

definition KEY_PERIOD :: pystr where
  "KEY_PERIOD = [1055, 1077, 1088, 1080, 1086, 1076, 32, 1074, 1099, 1087, 1091, 1089, 1082, 1072]"

definition KEY_LIST_PRICE :: pystr where
  "KEY_LIST_PRICE = [1056, 1077, 1082, 1086, 1084, 1077, 1085, 1076, 1086, 1074, 1072, 1085, 1085,
     1072, 1103, 32, 1094, 1077, 1085, 1072, 44, 32, 1088, 1091, 1073, 46]"

definition KEY_ENGINE :: pystr where
  "KEY_ENGINE = [1052, 1072, 1088, 1082, 1072, 32, 1076, 1074, 1080, 1075, 1072, 1090, 1077, 1083,
     1103]"

definition KEY_BODY :: pystr where
  "KEY_BODY = [1052, 1072, 1088, 1082, 1072, 32, 1082, 1091, 1079, 1086, 1074, 1072]"

definition KEY_PRICE_STAR :: pystr where
  "KEY_PRICE_STAR = [1062, 1077, 1085, 1072, 42]"

definition COMPARE :: pystr where
  "COMPARE = [1057, 1088, 1072, 1074, 1085, 1080, 1090, 1100]"

text \<open>
  The keys of the context a generation page inherits, set by the catalog, brand and model
  stages: vehicle type, brand, model, country of the market, description.
\<close>

definition KEY_TYPE :: pystr where "KEY_TYPE = [1058, 1048, 1055]"
definition KEY_BRAND :: pystr where "KEY_BRAND = [1052, 1072, 1088, 1082, 1072]"
definition KEY_MODEL :: pystr where "KEY_MODEL = [1052, 1086, 1076, 1077, 1083, 1100]"

definition KEY_COUNTRY :: pystr where
  "KEY_COUNTRY = [1044, 1083, 1103, 32, 1082, 1072, 1082, 1086, 1081, 32, 1089, 1090, 1088, 1072,
     1085, 1099]"

definition KEY_DESCRIPTION :: pystr where
  "KEY_DESCRIPTION = [1054, 1087, 1080, 1089, 1072, 1085, 1080, 1077, 32, 49]"

text \<open>
  The dict that \<open>parse_car_model_page\<close> hands to a generation page: the catalog stage makes
  the first two entries, the brand, model and generation loops add one key each to a copy.
\<close>

definition generation_data :: "pystr \<Rightarrow> pystr \<Rightarrow> pystr \<Rightarrow> pystr \<Rightarrow> pystr \<Rightarrow> pydict" where
  "generation_data car_type car_brand care_model country description =
     AList.update KEY_DESCRIPTION description
       (AList.update KEY_COUNTRY country
          (AList.update KEY_MODEL care_model
             [(KEY_TYPE, car_type), (KEY_BRAND, car_brand)]))"

section \<open>The accumulator and the output file\<close>

text \<open>
  A sheet is its header row and its data rows; a cell of a record that lacks the column's
  key is empty. The file at \<open>FILENAME\<close> is absent, a workbook with one sheet, or what a
  failed write left of one.
\<close>

record sheet =
  header_row :: "pystr list"
  data_rows :: "pystr option list list"

datatype file_state = NoFile | Workbook sheet | Truncated

text \<open>
  The process-wide state: the list \<open>all_data\<close>, the time of the last periodic save, the
  output file, and the exceptions of child tasks that a parent stage has logged.
\<close>

datatype py_error = IndexError | AttributeError

record state =
  all_data :: "pydict list"
  last_save_time :: real
  output_file :: file_state
  error_log :: "py_error list"

text \<open>
  \<open>pd.DataFrame(all_data)\<close>: one row per dict, the columns the keys of all dicts in the
  order in which they first occur.
\<close>

fun add_columns :: "pystr list \<Rightarrow> pystr list \<Rightarrow> pystr list" where
  "add_columns cols [] = cols"
| "add_columns cols (k # ks) = add_columns (if k \<in> set cols then cols else cols @ [k]) ks"

definition columns_of :: "pydict list \<Rightarrow> pystr list" where
  "columns_of recs = add_columns [] (concat (map (map fst) recs))"

definition DataFrame :: "pydict list \<Rightarrow> sheet" where
  "DataFrame recs =
     \<lparr>header_row = columns_of recs,
      data_rows = map (\<lambda>r. map (map_of r) (columns_of recs)) recs\<rparr>"

text \<open>
  \<open>df.to_excel(FILENAME, index=False, engine="openpyxl")\<close> either replaces the file by the
  frame or raises; the exception is caught and logged, and the file is then in the state
  the failed call left it in. Which of the two happens is the environment's choice.
\<close>

datatype write_outcome = WriteOK | WriteFailed file_state

definition save_data_to_excel :: "write_outcome \<Rightarrow> state \<Rightarrow> state" where
  "save_data_to_excel w st =
     (let df = DataFrame (all_data st) in
      case w of
        WriteOK \<Rightarrow> st\<lparr>output_file := Workbook df\<rparr>
      | WriteFailed left \<Rightarrow> st\<lparr>output_file := left\<rparr>)"

definition data_row_count :: "file_state \<Rightarrow> nat option" where
  "data_row_count f = (case f of Workbook sh \<Rightarrow> Some (length (data_rows sh)) | _ \<Rightarrow> None)"

section \<open>The generation page\<close>

text \<open>
  What one run of \<open>parse_car_generation_page\<close> meets outside the program: the answers of
  the page's URL, the clock read in the save check, the fate of the write, and the clock
  read after it. Clock readings are reals.
\<close>

record env =
  requests_get :: "nat \<Rightarrow> node outcome"
  clock_check :: real
  to_excel :: write_outcome
  clock_saved :: real

text \<open>The six assignments before the table is looked at.\<close>

definition placeholders :: "pydict \<Rightarrow> pydict" where
  "placeholders data =
     AList.update KEY_BODY DASH
       (AList.update KEY_ENGINE DASH
          (AList.update KEY_LIST_PRICE DASH
             (AList.update KEY_PERIOD DASH
                (AList.update KEY_TRIM DASH
                   (AList.update KEY_SECTION DASH data)))))"

text \<open>The six assignments after a data row has been appended.\<close>

definition reset_row_fields :: "pydict \<Rightarrow> pydict" where
  "reset_row_fields data =
     AList.update KEY_PRICE_STAR DASH
       (AList.update KEY_BODY DASH
          (AList.update KEY_ENGINE DASH
             (AList.update KEY_LIST_PRICE DASH
                (AList.update KEY_PERIOD DASH
                   (AList.update KEY_TRIM DASH data)))))"

definition RESET_KEYS :: "pystr list" where
  "RESET_KEYS = [KEY_TRIM, KEY_PERIOD, KEY_LIST_PRICE, KEY_ENGINE, KEY_BODY, KEY_PRICE_STAR]"

definition PLACEHOLDER_KEYS :: "pystr list" where
  "PLACEHOLDER_KEYS = [KEY_SECTION, KEY_TRIM, KEY_PERIOD, KEY_LIST_PRICE, KEY_ENGINE, KEY_BODY]"

text \<open>A header that names a field: not empty and without the comparison label.\<close>

definition field_header :: "pystr \<Rightarrow> bool" where
  "field_header header \<longleftrightarrow> header \<noteq> [] \<and> \<not> str_contains COMPARE header"

definition cell_value :: "node \<Rightarrow> pystr" where
  "cell_value column = collapse_spaces (strip (get_text column))"

text \<open>\<open>for i, column in enumerate(columns)\<close>, from index \<open>i\<close> on.\<close>

fun enumerate_columns :: "pystr list \<Rightarrow> nat \<Rightarrow> node list \<Rightarrow> pydict \<Rightarrow> pydict" where
  "enumerate_columns headers i [] data = data"
| "enumerate_columns headers i (column # columns) data =
     enumerate_columns headers (Suc i) columns
       (if i < length headers then
          (let header = headers ! i in
           if field_header header then AList.update header (cell_value column) data
           else data)
        else data)"

text \<open>
  The body of \<open>for row in rows[1:]\<close> on the pair of the local dict \<open>data\<close> and the
  accumulator, and the loop.
\<close>

definition process_row :: "pystr list \<Rightarrow> node \<Rightarrow> pydict \<times> pydict list \<Rightarrow> pydict \<times> pydict list" where
  "process_row headers row s =
     (case s of (data, acc) \<Rightarrow>
        let columns = find_all (named ''td'') row in
        case find_first section_cell row of
          Some th \<Rightarrow> (AList.update KEY_SECTION (strip (get_text th)) data, acc)
        | None \<Rightarrow>
            let data1 = enumerate_columns headers 0 columns data in
            (reset_row_fields data1, acc @ [data1]))"

fun process_rows :: "pystr list \<Rightarrow> node list \<Rightarrow> pydict \<times> pydict list \<Rightarrow> pydict \<times> pydict list" where
  "process_rows headers [] s = s"
| "process_rows headers (row # rows) s = process_rows headers rows (process_row headers row s)"

definition read_headers :: "node \<Rightarrow> pystr list" where
  "read_headers row0 = map (\<lambda>header. strip (get_text header)) (find_all (named ''th'') row0)"

text \<open>The save check at the end of the rows path.\<close>

definition periodic_save :: "env \<Rightarrow> state \<Rightarrow> state" where
  "periodic_save e st =
     (if clock_check e - last_save_time st \<ge> SAVE_INTERVAL
      then (save_data_to_excel (to_excel e) st)\<lparr>last_save_time := clock_saved e\<rparr>
      else st)"

text \<open>
  \<open>parse_car_generation_page\<close>. The result is the exception that escapes, if any, and the
  state. \<open>BeautifulSoup(str(table), "html.parser")\<close> is taken to give back the table under
  a fresh document root. The last assignment to \<open>data\<close> after the loop is to a dict that
  nothing reads afterwards and leaves no trace in the result.
\<close>

definition parse_car_generation_page :: "env \<Rightarrow> pydict \<Rightarrow> state \<Rightarrow> py_error option \<times> state" where
  "parse_car_generation_page e data0 st =
     (case fst (fetch_url (requests_get e)) of
        None \<Rightarrow> (None, st)
      | Some response \<Rightarrow>
          let data = placeholders data0 in
          (case find_first trim_table (soup response) of
             None \<Rightarrow> (None, st\<lparr>all_data := all_data st @ [data]\<rparr>)
           | Some table \<Rightarrow>
               (case find_first (named ''table'') (Tag ''[document]'' [] [table]) of
                  None \<Rightarrow> (Some AttributeError, st)
                | Some table' \<Rightarrow>
                    (case find_all (named ''tr'') table' of
                       [] \<Rightarrow> (Some IndexError, st)
                     | row0 # rows \<Rightarrow>
                         let headers = read_headers row0;
                             acc = snd (process_rows headers rows (data, all_data st))
                         in (None, periodic_save e (st\<lparr>all_data := acc\<rparr>))))))"

text \<open>
  The part of \<open>parse_car_model_page\<close> that runs the generation pages: every submitted task
  runs; an exception of a task is raised again by \<open>future.result()\<close>, caught and logged.
  The tasks are run here one after the other in the order of submission, which is one of
  the schedules of the worker pool.
\<close>

fun run_generation_pages :: "(env \<times> pydict) list \<Rightarrow> state \<Rightarrow> state" where
  "run_generation_pages [] st = st"
| "run_generation_pages ((e, data) # tasks) st =
     (case parse_car_generation_page e data st of
        (None, st') \<Rightarrow> run_generation_pages tasks st'
      | (Some err, st') \<Rightarrow> run_generation_pages tasks (st'\<lparr>error_log := error_log st' @ [err]\<rparr>))"

section \<open>Notions used in the proofs\<close>

definition cells :: "node \<Rightarrow> node list" where
  "cells row = find_all (named ''td'') row"

definition derived :: "pystr list \<Rightarrow> pydict \<Rightarrow> pydict \<Rightarrow> bool" where
  "derived headers d data \<longleftrightarrow>
     (\<forall>k. k \<notin> set headers \<and> k \<notin> set RESET_KEYS \<longrightarrow> map_of d k = map_of data k)
     \<and> keys d \<subseteq> keys data \<union> {h \<in> set headers. field_header h} \<union> set RESET_KEYS"

text \<open>
  The section label after a run of rows: a row with a section cell sets it, any other row
  leaves it.
\<close>

fun running_label :: "node list \<Rightarrow> pystr option \<Rightarrow> pystr option" where
  "running_label [] label = label"
| "running_label (row # rows) label =
     running_label rows
       (case find_first section_cell row of
          None \<Rightarrow> label
        | Some th \<Rightarrow> Some (strip (get_text th)))"

section \<open>Concrete inputs\<close>

definition answers_429_then_200 :: "nat \<Rightarrow> unit outcome" where
  "answers_429_then_200 i = Returned (Response (if i < 2 then 429 else 200) ())"

definition always_429 :: "nat \<Rightarrow> unit outcome" where
  "always_429 i = Returned (Response 429 ())"

definition times_out_on_even :: "nat \<Rightarrow> unit outcome" where
  "times_out_on_even i = (if even i then RequestException else Returned (Response 429 ()))"

definition not_found_first :: "nat \<Rightarrow> unit outcome" where
  "not_found_first i = Returned (Response (if i = 0 then 404 else 200) ())"

definition th_cell :: "string \<Rightarrow> node" where
  "th_cell s = Tag ''th'' [] [NavigableString (ascii s)]"

definition td_cell :: "string \<Rightarrow> node" where
  "td_cell s = Tag ''td'' [] [NavigableString (ascii s)]"

definition in_page :: "node list \<Rightarrow> node" where
  "in_page body = Tag ''[document]'' [] [Tag ''html'' [] [Tag ''body'' [] body]]"

definition trims_class :: "(string \<times> attr_value) list" where
  "trims_class = [(''class'', AttrList [ascii ''b-table'', ascii ''b-table_text-left''])]"

definition header_tr :: node where
  "header_tr = Tag ''tr'' []
     [th_cell ''Engine'', th_cell '' Gearbox '',
      Tag ''th'' [] [NavigableString (COMPARE @ ascii '' (2)'')]]"

definition full_tr1 :: node where
  "full_tr1 = Tag ''tr'' [] [td_cell ''  1.6   l '', td_cell ''AT'', td_cell ''x'']"

definition full_tr2 :: node where
  "full_tr2 = Tag ''tr'' [] [td_cell ''2.0 l'', td_cell ''MT'', td_cell ''x'']"

definition short_tr :: node where
  "short_tr = Tag ''tr'' [] [td_cell ''2.0 l'']"

definition section_tr :: node where
  "section_tr = Tag ''tr'' []
     [Tag ''th'' [(''colspan'', AttrStr (ascii ''3''))] [NavigableString (ascii '' Sport '')]]"

definition full_table :: node where
  "full_table = Tag ''table'' trims_class [header_tr, full_tr1, full_tr2]"

definition empty_table :: node where
  "empty_table = Tag ''table'' trims_class []"

definition context0 :: pydict where
  "context0 = generation_data (ascii ''cars'') (ascii ''Lada'') (ascii ''Niva'') (ascii ''Russia'')
     (ascii ''1977'')"

definition serves :: "node \<Rightarrow> write_outcome \<Rightarrow> env" where
  "serves page w =
     \<lparr>requests_get = (\<lambda>i. Returned (Response 200 page)), clock_check = 100, to_excel = w,
      clock_saved = 101\<rparr>"

definition unreachable :: env where
  "unreachable =
     \<lparr>requests_get = (\<lambda>i. RequestException), clock_check = 100, to_excel = WriteOK,
      clock_saved = 101\<rparr>"

definition state0 :: state where
  "state0 = \<lparr>all_data = [], last_save_time = 0, output_file = NoFile, error_log = []\<rparr>"

definition state1 :: state where
  "state1 = \<lparr>all_data = [placeholders context0], last_save_time = 0, output_file = NoFile,
     error_log = []\<rparr>"

definition ragged_table :: node where
  "ragged_table = Tag ''table'' trims_class [header_tr, full_tr1, short_tr]"

definition ragged_records :: "pydict list" where
  "ragged_records =
     all_data (snd (parse_car_generation_page (serves (in_page [ragged_table]) WriteOK)
       context0 state0))"

section \<open>Properties of the fetcher\<close>

lemma retry_events_same [simp]: "retry_events a a = []"
  by (simp add: retry_events_def)

lemma retry_events_Suc:
  "a \<le> b \<Longrightarrow> retry_events a (Suc b) = retry_events a b @ [Get b, Sleep RETRY_DELAY]"
  by (simp add: retry_events_def)

lemma attempts_retry_events [simp]: "attempts (retry_events a b) = b - a"
proof (cases "a \<le> b")
  case True
  then show ?thesis
  proof (induction b)
    case 0
    then show ?case by (simp add: attempts_def)
  next
    case (Suc b)
    show ?case
    proof (cases "a = Suc b")
      case True
      then show ?thesis by (simp add: attempts_def)
    next
      case False
      with Suc.prems have le: "a \<le> b" by simp
      with Suc.IH have "attempts (retry_events a b) = b - a" by simp
      with le show ?thesis
        by (simp add: retry_events_Suc attempts_def is_Get_def)
    qed
  qed
next
  case False
  then show ?thesis by (simp add: retry_events_def attempts_def)
qed

lemma sleeps_retry_events [simp]: "sleeps (retry_events a b) = b - a"
proof (cases "a \<le> b")
  case True
  then show ?thesis
  proof (induction b)
    case 0
    then show ?case by (simp add: sleeps_def)
  next
    case (Suc b)
    show ?case
    proof (cases "a = Suc b")
      case True
      then show ?thesis by (simp add: sleeps_def)
    next
      case False
      with Suc.prems have le: "a \<le> b" by simp
      with Suc.IH have "sleeps (retry_events a b) = b - a" by simp
      with le show ?thesis
        by (simp add: retry_events_Suc sleeps_def)
    qed
  qed
next
  case False
  then show ?thesis by (simp add: retry_events_def sleeps_def)
qed

lemma attempts_append [simp]: "attempts (xs @ ys) = attempts xs + attempts ys"
  by (simp add: attempts_def)

lemma sleeps_append [simp]: "sleeps (xs @ ys) = sleeps xs + sleeps ys"
  by (simp add: sleeps_def)

lemma attempts_Get [simp]: "attempts [Get i] = 1"
  by (simp add: attempts_def is_Get_def)

lemma sleeps_Get [simp]: "sleeps [Get i] = 0"
  by (simp add: sleeps_def)

lemma fetch_loop_retried_step:
  assumes "retried (get a)"
  shows "fetch_loop get (a # rest) tr = fetch_loop get rest (tr @ [Get a, Sleep RETRY_DELAY])"
proof (cases "get a")
  case (Returned response)
  with assms have "status_code response \<in> set [429, 503, 443]"
    by (simp add: retried_def)
  then have "status_code response \<noteq> 200" by auto
  with Returned \<open>status_code response \<in> set [429, 503, 443]\<close> show ?thesis by simp
next
  case RequestException
  then show ?thesis by simp
qed

text \<open>
  While every attempt is retried the loop only moves on: from attempt \<open>a\<close> it reaches
  attempt \<open>b\<close> with one GET and one sleep logged per attempt passed.
\<close>

lemma fetch_loop_retried:
  assumes "a \<le> b" and "b \<le> c" and "\<forall>i. a \<le> i \<and> i < b \<longrightarrow> retried (get i)"
  shows "fetch_loop get [a..<c] tr = fetch_loop get [b..<c] (tr @ retry_events a b)"
  using assms
proof (induction b)
  case 0
  then show ?case by simp
next
  case (Suc b)
  show ?case
  proof (cases "a = Suc b")
    case True
    then show ?thesis by simp
  next
    case False
    with Suc.prems have le: "a \<le> b" and lt: "b < c" and rb: "retried (get b)"
      by auto
    from Suc.prems le have "fetch_loop get [a..<c] tr = fetch_loop get [b..<c] (tr @ retry_events a b)"
      by (intro Suc.IH) auto
    also from lt have "[b..<c] = b # [Suc b..<c]"
      by (simp add: upt_conv_Cons)
    also from rb have "fetch_loop get (b # [Suc b..<c]) (tr @ retry_events a b) =
        fetch_loop get [Suc b..<c] ((tr @ retry_events a b) @ [Get b, Sleep RETRY_DELAY])"
      by (rule fetch_loop_retried_step)
    finally show ?thesis using le by (simp add: retry_events_Suc)
  qed
qed

text \<open>
  C1. If the first \<open>N - 1\<close> requests answer 429, 503 or 443 and request \<open>N\<close> answers 200, with
  \<open>1 \<le> N \<le> 50\<close>, then \<open>fetch_url\<close> returns that response; its effects are exactly the
  \<open>N - 1\<close> retried GETs, each followed by a sleep of \<open>RETRY_DELAY = 5\<close> seconds, and then the
  successful GET, which is the last event: \<open>N\<close> attempts, \<open>N - 1\<close> sleeps, nothing after
  the success.
\<close>

theorem fetch_url_succeeds_on_attempt_N:
  assumes "0 < N" and "N \<le> 50"
    and "\<forall>i<N - 1. \<exists>r. get i = Returned r \<and> status_code r \<in> {429, 503, 443}"
    and "get (N - 1) = Returned resp" and "status_code resp = 200"
  shows "fetch_url get = (Some resp, retry_events 0 (N - 1) @ [Get (N - 1)])
    \<and> attempts (snd (fetch_url get)) = N
    \<and> sleeps (snd (fetch_url get)) = N - 1
    \<and> RETRY_DELAY = 5"
proof -
  have r: "\<forall>i. 0 \<le> i \<and> i < N - 1 \<longrightarrow> retried (get i)"
    using assms(3) by (auto simp: retried_def)
  from assms have lt: "N - 1 < MAX_RETRIES" by (simp add: MAX_RETRIES_def)
  have "fetch_url get = fetch_loop get [N - 1..<MAX_RETRIES] ([] @ retry_events 0 (N - 1))"
    unfolding fetch_url_def using lt r by (intro fetch_loop_retried) auto
  also from lt have "[N - 1..<MAX_RETRIES] = (N - 1) # [Suc (N - 1)..<MAX_RETRIES]"
    by (simp add: upt_conv_Cons)
  finally have eq: "fetch_url get = (Some resp, retry_events 0 (N - 1) @ [Get (N - 1)])"
    using assms(4,5) by simp
  with assms(1) show ?thesis by (simp add: RETRY_DELAY_def)
qed

theorem fetch_url_succeeds_on_attempt_N_witness:
  "fetch_url answers_429_then_200 =
     (Some (Response 200 ()), [Get 0, Sleep 5, Get 1, Sleep 5, Get 2])
   \<and> attempts (snd (fetch_url answers_429_then_200)) = 3
   \<and> sleeps (snd (fetch_url answers_429_then_200)) = 2"
proof -
  have h: "\<forall>i<3 - 1. \<exists>r. answers_429_then_200 i = Returned r \<and> status_code r \<in> {429, 503, 443}"
    by (simp add: answers_429_then_200_def)
  have g: "answers_429_then_200 (3 - 1) = Returned (Response 200 ())"
    by (simp add: answers_429_then_200_def)
  have e: "retry_events 0 (3 - 1) @ [Get (3 - 1)] = [Get 0, Sleep 5, Get 1, Sleep 5, Get 2]"
    by (simp add: retry_events_def RETRY_DELAY_def upt_rec)
  from fetch_url_succeeds_on_attempt_N [of 3 answers_429_then_200 "Response 200 ()", OF _ _ h g]
  have "fetch_url answers_429_then_200 =
      (Some (Response 200 ()), retry_events 0 (3 - 1) @ [Get (3 - 1)])
    \<and> attempts (snd (fetch_url answers_429_then_200)) = 3
    \<and> sleeps (snd (fetch_url answers_429_then_200)) = 3 - 1"
    by simp
  then show ?thesis
    unfolding e by (simp add: attempts_def sleeps_def is_Get_def RETRY_DELAY_def)
qed

text \<open>
  C2. If every one of the 50 requests answers 429 or raises a \<open>RequestException\<close>, then
  \<open>fetch_url\<close> returns \<open>None\<close> after exactly 50 GETs (each followed by a sleep): responses
  and network exceptions are counted by the same loop counter.
\<close>

theorem fetch_url_gives_up_after_50:
  assumes "\<forall>i<50. get i = RequestException \<or> (\<exists>r. get i = Returned r \<and> status_code r = 429)"
  shows "fetch_url get = (None, retry_events 0 50)
    \<and> attempts (snd (fetch_url get)) = 50
    \<and> MAX_RETRIES = 50"
proof -
  have r: "\<forall>i. 0 \<le> i \<and> i < MAX_RETRIES \<longrightarrow> retried (get i)"
    using assms by (auto simp: retried_def MAX_RETRIES_def)
  have "fetch_url get = fetch_loop get [MAX_RETRIES..<MAX_RETRIES] ([] @ retry_events 0 MAX_RETRIES)"
    unfolding fetch_url_def using r by (intro fetch_loop_retried) auto
  then have "fetch_url get = (None, retry_events 0 50)"
    by (simp add: MAX_RETRIES_def)
  then show ?thesis by (simp add: MAX_RETRIES_def)
qed

theorem fetch_url_gives_up_after_50_witness:
  "fst (fetch_url always_429) = None \<and> attempts (snd (fetch_url always_429)) = 50
   \<and> fst (fetch_url times_out_on_even) = None
   \<and> attempts (snd (fetch_url times_out_on_even)) = 50"
proof -
  have h1: "\<forall>i<50. always_429 i = RequestException
      \<or> (\<exists>r. always_429 i = Returned r \<and> status_code r = 429)"
    by (simp add: always_429_def)
  have h2: "\<forall>i<50. times_out_on_even i = RequestException
      \<or> (\<exists>r. times_out_on_even i = Returned r \<and> status_code r = 429)"
    by (simp add: times_out_on_even_def)
  from fetch_url_gives_up_after_50 [OF h1] fetch_url_gives_up_after_50 [OF h2]
  show ?thesis by simp
qed

text \<open>
  C3. If the first request answers with a status that is neither 200 nor one of 429, 503,
  443, then \<open>fetch_url\<close> returns \<open>None\<close> and its only effect is that one GET: one attempt,
  no sleep, no retry.
\<close>

theorem fetch_url_aborts_on_other_status:
  assumes "get 0 = Returned r" and "status_code r \<noteq> 200"
    and "status_code r \<notin> {429, 503, 443}"
  shows "fetch_url get = (None, [Get 0])
    \<and> attempts (snd (fetch_url get)) = 1 \<and> sleeps (snd (fetch_url get)) = 0"
proof -
  have "[0..<MAX_RETRIES] = 0 # [Suc 0..<MAX_RETRIES]"
    by (simp add: MAX_RETRIES_def upt_conv_Cons)
  with assms have "fetch_url get = (None, [Get 0])"
    by (simp add: fetch_url_def)
  then show ?thesis by simp
qed

theorem fetch_url_aborts_on_other_status_witness:
  "fetch_url not_found_first = (None, [Get 0])
   \<and> attempts (snd (fetch_url not_found_first)) = 1
   \<and> sleeps (snd (fetch_url not_found_first)) = 0"
  using fetch_url_aborts_on_other_status [of not_found_first "Response 404 ()"]
  by (simp add: not_found_first_def)

section \<open>Properties of the generation page\<close>

lemma keys_update [simp]: "keys (AList.update k v d) = insert k (keys d)"
  by (simp add: keys_def dom_update)

lemma map_of_update [simp]: "map_of (AList.update k v d) k' = (if k' = k then Some v else map_of d k')"
  by (simp add: update_conv')

lemma map_of_placeholders:
  "map_of (placeholders data) k = (if k \<in> set PLACEHOLDER_KEYS then Some DASH else map_of data k)"
  by (simp add: placeholders_def PLACEHOLDER_KEYS_def)

lemma keys_placeholders: "keys (placeholders data) = keys data \<union> set PLACEHOLDER_KEYS"
  by (auto simp: placeholders_def PLACEHOLDER_KEYS_def)

lemma map_of_reset_row_fields:
  "map_of (reset_row_fields data) k = (if k \<in> set RESET_KEYS then Some DASH else map_of data k)"
  by (simp add: reset_row_fields_def RESET_KEYS_def)

lemma keys_reset_row_fields: "keys (reset_row_fields data) = keys data \<union> set RESET_KEYS"
  by (auto simp: reset_row_fields_def RESET_KEYS_def)

lemma find_first_holds: "find_first p el = Some n \<Longrightarrow> p n"
  by (auto simp: find_first_def find_all_def split: list.splits dest: filter_eq_ConsD)

lemma find_first_under_root:
  "named nm t \<Longrightarrow> find_first (named nm) (Tag d a [t]) = Some t"
  by (simp add: find_first_def find_all_def)

lemma fetch_url_first_200:
  assumes "get 0 = Returned r" and "status_code r = 200"
  shows "fetch_url get = (Some r, [Get 0])"
proof -
  have "[0..<MAX_RETRIES] = 0 # [Suc 0..<MAX_RETRIES]"
    by (simp add: MAX_RETRIES_def upt_conv_Cons)
  with assms show ?thesis by (simp add: fetch_url_def)
qed

lemma enumerate_columns_other:
  "(\<forall>j. j < length cols \<and> i + j < length headers \<and> field_header (headers ! (i + j))
        \<longrightarrow> headers ! (i + j) \<noteq> k)
   \<Longrightarrow> map_of (enumerate_columns headers i cols data) k = map_of data k"
proof (induction cols arbitrary: i data)
  case Nil
  then show ?case by simp
next
  case (Cons c cols)
  have later: "\<forall>j. j < length cols \<and> Suc i + j < length headers
      \<and> field_header (headers ! (Suc i + j)) \<longrightarrow> headers ! (Suc i + j) \<noteq> k"
  proof (intro allI impI)
    fix j assume "j < length cols \<and> Suc i + j < length headers
      \<and> field_header (headers ! (Suc i + j))"
    with Cons.prems [rule_format, of "Suc j"] show "headers ! (Suc i + j) \<noteq> k" by simp
  qed
  from Cons.prems [rule_format, of 0]
  have here: "i < length headers \<and> field_header (headers ! i) \<longrightarrow> headers ! i \<noteq> k" by simp
  show ?case
    using Cons.IH [OF later] here by (auto simp: Let_def)
qed

lemma enumerate_columns_hit:
  "n < length cols \<Longrightarrow> i + n < length headers \<Longrightarrow> field_header (headers ! (i + n))
   \<Longrightarrow> (\<forall>j. n < j \<and> j < length cols \<and> i + j < length headers
          \<longrightarrow> headers ! (i + j) \<noteq> headers ! (i + n))
   \<Longrightarrow> map_of (enumerate_columns headers i cols data) (headers ! (i + n))
       = Some (cell_value (cols ! n))"
proof (induction cols arbitrary: i n data)
  case Nil
  then show ?case by simp
next
  case (Cons c cols)
  show ?case
  proof (cases n)
    case 0
    have "\<forall>j. j < length cols \<and> Suc i + j < length headers \<and> field_header (headers ! (Suc i + j))
        \<longrightarrow> headers ! (Suc i + j) \<noteq> headers ! i"
    proof (intro allI impI)
      fix j assume "j < length cols \<and> Suc i + j < length headers
        \<and> field_header (headers ! (Suc i + j))"
      with Cons.prems(4) [rule_format, of "Suc j"] 0 show "headers ! (Suc i + j) \<noteq> headers ! i"
        by simp
    qed
    from enumerate_columns_other [OF this] Cons.prems(2,3) 0 show ?thesis
      by (simp add: Let_def)
  next
    case (Suc m)
    have "\<forall>j. m < j \<and> j < length cols \<and> Suc i + j < length headers
        \<longrightarrow> headers ! (Suc i + j) \<noteq> headers ! (Suc i + m)"
    proof (intro allI impI)
      fix j assume "m < j \<and> j < length cols \<and> Suc i + j < length headers"
      with Cons.prems(4) [rule_format, of "Suc j"] Suc
      show "headers ! (Suc i + j) \<noteq> headers ! (Suc i + m)" by simp
    qed
    with Cons.prems Suc show ?thesis
      using Cons.IH [of m "Suc i"] by simp
  qed
qed

lemma keys_enumerate_columns:
  "keys (enumerate_columns headers i cols data) \<subseteq> keys data \<union> {h \<in> set headers. field_header h}"
proof (induction cols arbitrary: i data)
  case Nil
  then show ?case by simp
next
  case (Cons c cols)
  let ?d = "if i < length headers then
      (let header = headers ! i in
       if field_header header then AList.update header (cell_value c) data else data)
    else data"
  have eq: "enumerate_columns headers i (c # cols) data = enumerate_columns headers (Suc i) cols ?d"
    by simp
  have "keys ?d \<subseteq> keys data \<union> {h \<in> set headers. field_header h}"
    by (auto simp: Let_def)
  moreover have "keys (enumerate_columns headers (Suc i) cols ?d)
      \<subseteq> keys ?d \<union> {h \<in> set headers. field_header h}"
    by (rule Cons.IH)
  ultimately show ?case unfolding eq by blast
qed

lemma derived_refl: "derived headers d d"
  by (auto simp: derived_def)

lemma derived_trans:
  "derived headers d2 d1 \<Longrightarrow> derived headers d1 d0 \<Longrightarrow> derived headers d2 d0"
  unfolding derived_def by (intro conjI) (simp, blast)

lemma derived_row:
  "derived headers (reset_row_fields (enumerate_columns headers 0 cols d)) d"
proof -
  have "map_of (enumerate_columns headers 0 cols d) k = map_of d k" if "k \<notin> set headers" for k
    using that by (intro enumerate_columns_other) auto
  moreover note keys_enumerate_columns [of headers 0 cols d]
  ultimately show ?thesis
    unfolding derived_def by (auto simp: map_of_reset_row_fields keys_reset_row_fields)
qed

lemma process_row_data:
  "find_first section_cell row = None \<Longrightarrow>
   process_row headers row (data, acc) =
     (reset_row_fields (enumerate_columns headers 0 (cells row) data),
      acc @ [enumerate_columns headers 0 (cells row) data])"
  by (simp add: process_row_def cells_def Let_def)

lemma process_row_section:
  "find_first section_cell row = Some th \<Longrightarrow>
   process_row headers row (data, acc) =
     (AList.update KEY_SECTION (strip (get_text th)) data, acc)"
  by (simp add: process_row_def Let_def)

lemma process_rows_data_rows:
  assumes "\<forall>row\<in>set rows. find_first section_cell row = None"
  shows "\<exists>recs. snd (process_rows headers rows (data, acc)) = acc @ recs
    \<and> length recs = length rows
    \<and> (\<forall>j<length rows. \<exists>d. derived headers d data
          \<and> recs ! j = enumerate_columns headers 0 (cells (rows ! j)) d)"
  using assms
proof (induction rows arbitrary: data acc)
  case Nil
  then show ?case by simp
next
  case (Cons row rows)
  let ?r = "enumerate_columns headers 0 (cells row) data"
  let ?d = "reset_row_fields ?r"
  from Cons.prems have row: "find_first section_cell row = None"
    and rest: "\<forall>row\<in>set rows. find_first section_cell row = None"
    by simp_all
  from Cons.IH [OF rest, of ?d "acc @ [?r]"]
  obtain recs where recs: "snd (process_rows headers rows (?d, acc @ [?r])) = (acc @ [?r]) @ recs"
    and len: "length recs = length rows"
    and each: "\<forall>j<length rows. \<exists>d. derived headers d ?d
          \<and> recs ! j = enumerate_columns headers 0 (cells (rows ! j)) d"
    by blast
  have "snd (process_rows headers (row # rows) (data, acc)) = acc @ (?r # recs)"
    using recs row by (simp add: process_row_data)
  moreover have "length (?r # recs) = length (row # rows)"
    using len by simp
  moreover have "\<forall>j<length (row # rows). \<exists>d. derived headers d data
      \<and> (?r # recs) ! j = enumerate_columns headers 0 (cells ((row # rows) ! j)) d"
  proof (intro allI impI)
    fix j assume j: "j < length (row # rows)"
    show "\<exists>d. derived headers d data
      \<and> (?r # recs) ! j = enumerate_columns headers 0 (cells ((row # rows) ! j)) d"
    proof (cases j)
      case 0
      then show ?thesis using derived_refl by auto
    next
      case (Suc m)
      with j each obtain d where d: "derived headers d ?d"
        and r: "recs ! m = enumerate_columns headers 0 (cells (rows ! m)) d"
        by auto
      from d have "derived headers d data"
        by (rule derived_trans) (rule derived_row)
      with Suc r show ?thesis by auto
    qed
  qed
  ultimately show ?case by blast
qed

lemma fetch_serves: "fst (fetch_url (requests_get (serves page w))) = Some (Response 200 page)"
  by (simp add: fetch_url_first_200 [of _ "Response 200 page"] serves_def)

lemma fetch_unreachable: "fst (fetch_url (requests_get unreachable)) = None"
proof -
  have r: "\<forall>i. 0 \<le> i \<and> i < MAX_RETRIES \<longrightarrow> retried (requests_get unreachable i)"
    by (simp add: retried_def unreachable_def)
  have "fetch_url (requests_get unreachable) =
      fetch_loop (requests_get unreachable) [MAX_RETRIES..<MAX_RETRIES] ([] @ retry_events 0 MAX_RETRIES)"
    unfolding fetch_url_def using r by (intro fetch_loop_retried) auto
  then show ?thesis by simp
qed

lemma trim_table_full: "trim_table (Tag ''table'' trims_class rows)"
  by (simp add: trim_table_def named_def attr_is_def trims_class_def ascii_def)

lemma find_no_table: "find_first trim_table (in_page [Tag ''p'' [] []]) = None"
  by (simp add: find_first_def find_all_def in_page_def trim_table_def named_def)

lemma find_table: "find_first trim_table (in_page [Tag ''table'' trims_class rows]) = Some (Tag ''table'' trims_class rows)"
  using trim_table_full [of rows]
  by (simp add: find_first_def find_all_def in_page_def trim_table_def named_def)

lemma rows_full_table: "find_all (named ''tr'') full_table = [header_tr, full_tr1, full_tr2]"
  by (simp add: find_all_def full_table_def header_tr_def full_tr1_def full_tr2_def named_def
      th_cell_def td_cell_def)

lemma headers_header_tr: "read_headers header_tr = [ascii ''Engine'', ascii ''Gearbox'', COMPARE @ ascii '' (2)'']"
  by (simp add: read_headers_def find_all_def header_tr_def named_def th_cell_def strip_def
      ascii_def isspace_def COMPARE_def)

lemma all_data_periodic_save [simp]: "all_data (periodic_save e st) = all_data st"
  by (simp add: periodic_save_def save_data_to_excel_def split: write_outcome.splits)

lemma error_log_periodic_save [simp]: "error_log (periodic_save e st) = error_log st"
  by (simp add: periodic_save_def save_data_to_excel_def split: write_outcome.splits)

lemma parse_rows_path:
  assumes "fst (fetch_url (requests_get e)) = Some response"
    and "find_first trim_table (soup response) = Some table"
    and "find_all (named ''tr'') table = row0 # rows"
  shows "parse_car_generation_page e data st =
    (None, periodic_save e
       (st\<lparr>all_data := snd (process_rows (read_headers row0) rows (placeholders data, all_data st))\<rparr>))"
proof -
  from assms(2) have "trim_table table" by (rule find_first_holds)
  then have "named ''table'' table" by (simp add: trim_table_def)
  then have "find_first (named ''table'') (Tag ''[document]'' [] [table]) = Some table"
    by (rule find_first_under_root)
  with assms show ?thesis
    by (simp add: parse_car_generation_page_def Let_def)
qed

lemma fixed_keys_no_compare:
  "k \<in> set PLACEHOLDER_KEYS \<union> set RESET_KEYS \<Longrightarrow> \<not> str_contains COMPARE k"
  by (auto simp: PLACEHOLDER_KEYS_def RESET_KEYS_def COMPARE_def KEY_SECTION_def KEY_TRIM_def
      KEY_PERIOD_def KEY_LIST_PRICE_def KEY_ENGINE_def KEY_BODY_def KEY_PRICE_STAR_def)

lemma reset_keys_subset: "set RESET_KEYS \<subseteq> set PLACEHOLDER_KEYS \<union> {KEY_PRICE_STAR}"
  by (auto simp: PLACEHOLDER_KEYS_def RESET_KEYS_def)

text \<open>
  C4. If the page is fetched and holds no table that matches the selector, then
  \<open>parse_car_generation_page\<close> raises nothing and changes the state in one way only: it
  appends one record to \<open>all_data\<close>. That record is the inherited context with the six
  fields of \<open>PLACEHOLDER_KEYS\<close> (section label, trim name, production period,
  recommended price, engine make, body make) set to \<open>"-"\<close> and every other key as the
  context has it.
\<close>

theorem page_without_table_appends_fallback:
  assumes "fst (fetch_url (requests_get e)) = Some response"
    and "find_first trim_table (soup response) = None"
  shows "parse_car_generation_page e data st =
      (None, st\<lparr>all_data := all_data st @ [placeholders data]\<rparr>)
    \<and> (\<forall>k. map_of (placeholders data) k =
          (if k \<in> set PLACEHOLDER_KEYS then Some DASH else map_of data k))"
  using assms by (simp add: parse_car_generation_page_def Let_def map_of_placeholders)

text \<open>
  C5. If the page is fetched, the matched table has the rows \<open>row0 # rows\<close>, and no row
  after the first holds a \<open>th\<close> with a \<open>colspan\<close>, then the call raises nothing and appends
  exactly \<open>length rows\<close> records. In the record of row \<open>j\<close>, every header that names a
  field and has a cell in that row maps to the cleaned text of its cell (where a header
  text occurs twice, the dict keeps the cell of the last occurrence); every key that is
  neither a header nor one of the fixed fields has the value of the inherited context; and no
  key contains the comparison label, given that no key of the inherited context does (the
  five keys set by the earlier stages do not, lemma \<open>context0_keys\<close>).
\<close>

theorem table_rows_become_records:
  assumes fetch: "fst (fetch_url (requests_get e)) = Some response"
    and table: "find_first trim_table (soup response) = Some table"
    and rows: "find_all (named ''tr'') table = row0 # rows"
    and nosec: "\<forall>row\<in>set rows. find_first section_cell row = None"
    and ctx: "\<forall>k\<in>keys data. \<not> str_contains COMPARE k"
  shows "\<exists>recs.
      fst (parse_car_generation_page e data st) = None
    \<and> all_data (snd (parse_car_generation_page e data st)) = all_data st @ recs
    \<and> length recs = length rows
    \<and> (\<forall>j<length rows.
         (\<forall>i. i < length (read_headers row0) \<and> i < length (find_all (named ''td'') (rows ! j))
               \<and> field_header (read_headers row0 ! i)
               \<and> (\<forall>i'. i < i' \<and> i' < length (read_headers row0)
                      \<and> i' < length (find_all (named ''td'') (rows ! j))
                    \<longrightarrow> read_headers row0 ! i' \<noteq> read_headers row0 ! i)
            \<longrightarrow> map_of (recs ! j) (read_headers row0 ! i)
                = Some (cell_value (find_all (named ''td'') (rows ! j) ! i)))
       \<and> (\<forall>k. k \<notin> set (read_headers row0) \<and> k \<notin> set PLACEHOLDER_KEYS \<and> k \<noteq> KEY_PRICE_STAR
            \<longrightarrow> map_of (recs ! j) k = map_of data k)
       \<and> (\<forall>k\<in>keys (recs ! j). \<not> str_contains COMPARE k))"
proof -
  let ?hs = "read_headers row0"
  from process_rows_data_rows [OF nosec, of ?hs "placeholders data" "all_data st"]
  obtain recs where acc: "snd (process_rows ?hs rows (placeholders data, all_data st)) = all_data st @ recs"
    and len: "length recs = length rows"
    and each: "\<forall>j<length rows. \<exists>d. derived ?hs d (placeholders data)
          \<and> recs ! j = enumerate_columns ?hs 0 (cells (rows ! j)) d"
    by blast
  have res: "parse_car_generation_page e data st =
      (None, periodic_save e (st\<lparr>all_data := all_data st @ recs\<rparr>))"
    using parse_rows_path [OF fetch table rows] acc by simp
  have "(\<forall>i. i < length ?hs \<and> i < length (find_all (named ''td'') (rows ! j))
               \<and> field_header (?hs ! i)
               \<and> (\<forall>i'. i < i' \<and> i' < length ?hs
                      \<and> i' < length (find_all (named ''td'') (rows ! j))
                    \<longrightarrow> ?hs ! i' \<noteq> ?hs ! i)
            \<longrightarrow> map_of (recs ! j) (?hs ! i)
                = Some (cell_value (find_all (named ''td'') (rows ! j) ! i)))
       \<and> (\<forall>k. k \<notin> set ?hs \<and> k \<notin> set PLACEHOLDER_KEYS \<and> k \<noteq> KEY_PRICE_STAR
            \<longrightarrow> map_of (recs ! j) k = map_of data k)
       \<and> (\<forall>k\<in>keys (recs ! j). \<not> str_contains COMPARE k)" if j: "j < length rows" for j
  proof -
    let ?cols = "find_all (named ''td'') (rows ! j)"
    from each j obtain d where d: "derived ?hs d (placeholders data)"
      and r: "recs ! j = enumerate_columns ?hs 0 ?cols d"
      by (auto simp: cells_def)
    have a: "map_of (recs ! j) (?hs ! i) = Some (cell_value (?cols ! i))"
      if "i < length ?hs" "i < length ?cols" "field_header (?hs ! i)"
        "\<forall>i'. i < i' \<and> i' < length ?hs \<and> i' < length ?cols \<longrightarrow> ?hs ! i' \<noteq> ?hs ! i" for i
      unfolding r using that enumerate_columns_hit [of i ?cols 0 ?hs d] by simp
    have b: "map_of (recs ! j) k = map_of data k"
      if "k \<notin> set ?hs" "k \<notin> set PLACEHOLDER_KEYS" "k \<noteq> KEY_PRICE_STAR" for k
    proof -
      have "map_of (recs ! j) k = map_of d k"
        unfolding r using that(1) by (intro enumerate_columns_other) auto
      also from that reset_keys_subset have "k \<notin> set RESET_KEYS" by auto
      with d that(1) have "map_of d k = map_of (placeholders data) k"
        by (simp add: derived_def)
      also from that(2) have "\<dots> = map_of data k" by (simp add: map_of_placeholders)
      finally show ?thesis .
    qed
    have c: "\<not> str_contains COMPARE k" if "k \<in> keys (recs ! j)" for k
    proof -
      from that r keys_enumerate_columns [of ?hs 0 ?cols d]
      have "k \<in> keys d \<or> (k \<in> set ?hs \<and> field_header k)" by auto
      with d have "k \<in> keys data \<or> k \<in> set PLACEHOLDER_KEYS \<union> set RESET_KEYS
          \<or> field_header k"
        by (auto simp: derived_def keys_placeholders)
      with ctx fixed_keys_no_compare show ?thesis
        by (auto simp: field_header_def)
    qed
    from a b c show ?thesis by blast
  qed
  with res len show ?thesis by (intro exI [of _ recs]) simp
qed

lemma context0_keys: "\<forall>k\<in>keys (generation_data a b c d f). \<not> str_contains COMPARE k"
  by (simp add: generation_data_def COMPARE_def KEY_TYPE_def KEY_BRAND_def KEY_MODEL_def
      KEY_COUNTRY_def KEY_DESCRIPTION_def keys_def)

theorem page_without_table_appends_fallback_witness:
  "all_data (snd (parse_car_generation_page (serves (in_page [Tag ''p'' [] []]) WriteOK) context0 state0))
     = [placeholders context0]
   \<and> map_of (placeholders context0) KEY_TRIM = Some DASH
   \<and> map_of (placeholders context0) KEY_BRAND = Some (ascii ''Lada'')"
proof -
  have k: "KEY_TRIM \<in> set PLACEHOLDER_KEYS" "KEY_BRAND \<notin> set PLACEHOLDER_KEYS"
    by (simp_all add: PLACEHOLDER_KEYS_def KEY_SECTION_def KEY_TRIM_def
      KEY_PERIOD_def KEY_LIST_PRICE_def KEY_ENGINE_def KEY_BODY_def KEY_BRAND_def)
  have b: "map_of context0 KEY_BRAND = Some (ascii ''Lada'')"
    by (simp add: context0_def generation_data_def KEY_TYPE_def KEY_BRAND_def KEY_MODEL_def
      KEY_COUNTRY_def KEY_DESCRIPTION_def)
  from page_without_table_appends_fallback
    [of "serves (in_page [Tag ''p'' [] []]) WriteOK" "Response 200 (in_page [Tag ''p'' [] []])"
      context0 state0, OF fetch_serves]
    find_no_table k b
  show ?thesis by (simp add: state0_def)
qed

lemma no_section_full: "\<forall>row\<in>set [full_tr1, full_tr2]. find_first section_cell row = None"
  by (simp add: find_first_def find_all_def full_tr1_def full_tr2_def td_cell_def
      section_cell_def named_def)

theorem table_rows_become_records_witness:
  "\<exists>recs. all_data (snd (parse_car_generation_page (serves (in_page [full_table]) WriteOK)
        context0 state0)) = recs
    \<and> length recs = 2
    \<and> map_of (recs ! 0) (ascii ''Engine'') = Some (ascii ''1.6 l'')
    \<and> map_of (recs ! 1) (ascii ''Gearbox'') = Some (ascii ''MT'')
    \<and> map_of (recs ! 1) KEY_BRAND = Some (ascii ''Lada'')
    \<and> COMPARE @ ascii '' (2)'' \<notin> keys (recs ! 1)"
proof -
  have t: "find_first trim_table (soup (Response 200 (in_page [full_table]))) = Some full_table"
    using find_table [of "[header_tr, full_tr1, full_tr2]"] by (simp add: full_table_def)
  have c: "\<forall>k\<in>keys context0. \<not> str_contains COMPARE k"
    unfolding context0_def by (rule context0_keys)
  from table_rows_become_records
    [of "serves (in_page [full_table]) WriteOK" "Response 200 (in_page [full_table])" full_table
      header_tr "[full_tr1, full_tr2]" context0 state0,
      OF fetch_serves t rows_full_table no_section_full c]
  obtain recs where
    a: "all_data (snd (parse_car_generation_page (serves (in_page [full_table]) WriteOK)
        context0 state0)) = all_data state0 @ recs"
    and l: "length recs = length [full_tr1, full_tr2]"
    and e: "\<forall>j<length [full_tr1, full_tr2].
         (\<forall>i. i < length (read_headers header_tr)
               \<and> i < length (find_all (named ''td'') ([full_tr1, full_tr2] ! j))
               \<and> field_header (read_headers header_tr ! i)
               \<and> (\<forall>i'. i < i' \<and> i' < length (read_headers header_tr)
                      \<and> i' < length (find_all (named ''td'') ([full_tr1, full_tr2] ! j))
                    \<longrightarrow> read_headers header_tr ! i' \<noteq> read_headers header_tr ! i)
            \<longrightarrow> map_of (recs ! j) (read_headers header_tr ! i)
                = Some (cell_value (find_all (named ''td'') ([full_tr1, full_tr2] ! j) ! i)))
       \<and> (\<forall>k. k \<notin> set (read_headers header_tr) \<and> k \<notin> set PLACEHOLDER_KEYS \<and> k \<noteq> KEY_PRICE_STAR
            \<longrightarrow> map_of (recs ! j) k = map_of context0 k)
       \<and> (\<forall>k\<in>keys (recs ! j). \<not> str_contains COMPARE k)"
    by blast
  have td1: "find_all (named ''td'') full_tr1 = [td_cell ''  1.6   l '', td_cell ''AT'', td_cell ''x'']"
    and td2: "find_all (named ''td'') full_tr2 = [td_cell ''2.0 l'', td_cell ''MT'', td_cell ''x'']"
    by (simp_all add: find_all_def full_tr1_def full_tr2_def td_cell_def named_def)
  have v1: "cell_value (td_cell ''  1.6   l '') = ascii ''1.6 l''"
    and v2: "cell_value (td_cell ''MT'') = ascii ''MT''"
    by (simp_all add: cell_value_def td_cell_def strip_def ascii_def isspace_def)
  have fh: "field_header (ascii ''Engine'')" "field_header (ascii ''Gearbox'')"
    by (simp_all add: field_header_def ascii_def COMPARE_def)
  have ne: "ascii ''Gearbox'' \<noteq> ascii ''Engine''" "COMPARE @ ascii '' (2)'' \<noteq> ascii ''Engine''"
    "COMPARE @ ascii '' (2)'' \<noteq> ascii ''Gearbox''"
    by (simp_all add: ascii_def COMPARE_def)
  from e [rule_format, of 0] have e0: "\<And>i. i < length (read_headers header_tr)
               \<and> i < length (find_all (named ''td'') full_tr1)
               \<and> field_header (read_headers header_tr ! i)
               \<and> (\<forall>i'. i < i' \<and> i' < length (read_headers header_tr)
                      \<and> i' < length (find_all (named ''td'') full_tr1)
                    \<longrightarrow> read_headers header_tr ! i' \<noteq> read_headers header_tr ! i)
            \<Longrightarrow> map_of (recs ! 0) (read_headers header_tr ! i)
                = Some (cell_value (find_all (named ''td'') full_tr1 ! i))"
    by simp
  have d0: "\<forall>i'. 0 < i' \<and> i' < length (read_headers header_tr)
        \<and> i' < length (find_all (named ''td'') full_tr1)
      \<longrightarrow> read_headers header_tr ! i' \<noteq> read_headers header_tr ! 0"
    using ne by (auto simp: headers_header_tr less_Suc_eq)
  have r0: "map_of (recs ! 0) (ascii ''Engine'') = Some (ascii ''1.6 l'')"
    using e0 [of 0] fh d0 by (simp add: headers_header_tr td1 v1)
  from e [rule_format, of 1] have e1: "\<And>i. i < length (read_headers header_tr)
               \<and> i < length (find_all (named ''td'') full_tr2)
               \<and> field_header (read_headers header_tr ! i)
               \<and> (\<forall>i'. i < i' \<and> i' < length (read_headers header_tr)
                      \<and> i' < length (find_all (named ''td'') full_tr2)
                    \<longrightarrow> read_headers header_tr ! i' \<noteq> read_headers header_tr ! i)
            \<Longrightarrow> map_of (recs ! 1) (read_headers header_tr ! i)
                = Some (cell_value (find_all (named ''td'') full_tr2 ! i))"
    and k1: "\<And>k. k \<notin> set (read_headers header_tr) \<and> k \<notin> set PLACEHOLDER_KEYS \<and> k \<noteq> KEY_PRICE_STAR
            \<Longrightarrow> map_of (recs ! 1) k = map_of context0 k"
    and c1: "\<And>k. k \<in> keys (recs ! 1) \<Longrightarrow> \<not> str_contains COMPARE k"
    by simp_all
  have d1: "\<forall>i'. 1 < i' \<and> i' < length (read_headers header_tr)
        \<and> i' < length (find_all (named ''td'') full_tr2)
      \<longrightarrow> read_headers header_tr ! i' \<noteq> read_headers header_tr ! 1"
    using ne by (auto simp: headers_header_tr less_Suc_eq)
  have r1: "map_of (recs ! 1) (ascii ''Gearbox'') = Some (ascii ''MT'')"
    using e1 [of 1] fh d1 by (simp add: headers_header_tr td2 v2)
  have "map_of (recs ! 1) KEY_BRAND = map_of context0 KEY_BRAND"
    by (rule k1) (simp add: headers_header_tr PLACEHOLDER_KEYS_def KEY_SECTION_def KEY_TRIM_def
      KEY_PERIOD_def KEY_LIST_PRICE_def KEY_ENGINE_def KEY_BODY_def KEY_BRAND_def KEY_PRICE_STAR_def
      ascii_def COMPARE_def)
  then have b1: "map_of (recs ! 1) KEY_BRAND = Some (ascii ''Lada'')"
    by (simp add: context0_def generation_data_def KEY_TYPE_def KEY_BRAND_def KEY_MODEL_def
      KEY_COUNTRY_def KEY_DESCRIPTION_def)
  have "str_contains COMPARE (COMPARE @ ascii '' (2)'')"
    by (simp add: COMPARE_def ascii_def)
  with c1 have n1: "COMPARE @ ascii '' (2)'' \<notin> keys (recs ! 1)" by blast
  from a l r0 r1 b1 n1 show ?thesis by (simp add: state0_def)
qed

lemma section_not_reset: "KEY_SECTION \<notin> set RESET_KEYS"
  by (simp add: RESET_KEYS_def KEY_SECTION_def KEY_TRIM_def KEY_PERIOD_def KEY_LIST_PRICE_def
      KEY_ENGINE_def KEY_BODY_def KEY_PRICE_STAR_def)

lemma enumerate_columns_over:
  "map_of (enumerate_columns headers i cols d) k =
     (case map_of (enumerate_columns headers i cols []) k of
        None \<Rightarrow> map_of d k
      | Some v \<Rightarrow> Some v)"
proof (induction cols arbitrary: i d)
  case Nil
  then show ?case by simp
next
  case (Cons c cols)
  show ?case
  proof (cases "i < length headers \<and> field_header (headers ! i)")
    case True
    then have "map_of (enumerate_columns headers i (c # cols) d) k =
        (case map_of (enumerate_columns headers (Suc i) cols []) k of
           None \<Rightarrow> map_of (AList.update (headers ! i) (cell_value c) d) k
         | Some v \<Rightarrow> Some v)"
      using Cons.IH [of "Suc i" "AList.update (headers ! i) (cell_value c) d"]
      by (simp add: Let_def)
    moreover from True have "map_of (enumerate_columns headers i (c # cols) []) k =
        (case map_of (enumerate_columns headers (Suc i) cols []) k of
           None \<Rightarrow> map_of (AList.update (headers ! i) (cell_value c) []) k
         | Some v \<Rightarrow> Some v)"
      using Cons.IH [of "Suc i" "AList.update (headers ! i) (cell_value c) []"]
      by (simp add: Let_def)
    ultimately show ?thesis
      by (simp split: option.splits)
  next
    case False
    then have "enumerate_columns headers i (c # cols) d = enumerate_columns headers (Suc i) cols d"
      and "enumerate_columns headers i (c # cols) [] = enumerate_columns headers (Suc i) cols []"
      by (auto simp: Let_def)
    with Cons.IH [of "Suc i" d] show ?thesis by simp
  qed
qed

lemma keys_enumerate_columns_mono:
  "k \<in> keys d \<Longrightarrow> k \<in> keys (enumerate_columns headers i cols d)"
proof (induction cols arbitrary: i d)
  case Nil
  then show ?case by simp
next
  case (Cons c cols)
  let ?d = "if i < length headers then
      (let header = headers ! i in
       if field_header header then AList.update header (cell_value c) d else d)
    else d"
  from Cons.prems have "k \<in> keys ?d" by (simp add: Let_def)
  then have "k \<in> keys (enumerate_columns headers (Suc i) cols ?d)" by (rule Cons.IH)
  then show ?case by simp
qed

lemma enumerate_columns_written:
  "j < length cols \<Longrightarrow> i + j < length headers \<Longrightarrow> field_header (headers ! (i + j))
   \<Longrightarrow> headers ! (i + j) \<in> keys (enumerate_columns headers i cols d)"
proof (induction cols arbitrary: i j d)
  case Nil
  then show ?case by simp
next
  case (Cons c cols)
  show ?case
  proof (cases j)
    case 0
    with Cons.prems have "headers ! i \<in> keys (AList.update (headers ! i) (cell_value c) d)"
      by simp
    then have "headers ! i \<in> keys (enumerate_columns headers (Suc i) cols
        (AList.update (headers ! i) (cell_value c) d))"
      by (rule keys_enumerate_columns_mono)
    with 0 Cons.prems show ?thesis by (simp add: Let_def)
  next
    case (Suc m)
    with Cons.prems show ?thesis
      using Cons.IH [of m "Suc i"] by simp
  qed
qed

lemma enumerate_columns_source:
  assumes "map_of (enumerate_columns headers i cols []) k \<noteq> None"
  shows "\<exists>j. j < length cols \<and> i + j < length headers \<and> field_header (headers ! (i + j))
    \<and> headers ! (i + j) = k"
proof (rule ccontr)
  assume "\<not> ?thesis"
  then have "\<forall>j. j < length cols \<and> i + j < length headers \<and> field_header (headers ! (i + j))
      \<longrightarrow> headers ! (i + j) \<noteq> k"
    by blast
  then have "map_of (enumerate_columns headers i cols []) k = map_of [] k"
    by (rule enumerate_columns_other)
  with assms show False by simp
qed

lemma map_of_None_keys: "map_of d k = None \<longleftrightarrow> k \<notin> keys d"
  by (simp add: keys_def map_of_eq_None_iff)

lemma process_rows_append:
  "process_rows headers (xs @ ys) s = process_rows headers ys (process_rows headers xs s)"
  by (induction xs arbitrary: s) simp_all

lemma process_row_keeps_reset:
  assumes "\<forall>k\<in>set RESET_KEYS. map_of d k = Some DASH"
  shows "\<forall>k\<in>set RESET_KEYS. map_of (fst (process_row headers row (d, acc))) k = Some DASH"
proof (cases "find_first section_cell row")
  case None
  then show ?thesis by (simp add: process_row_data map_of_reset_row_fields)
next
  case (Some th)
  with assms section_not_reset show ?thesis by (auto simp: process_row_section)
qed

lemma process_rows_keep_reset:
  "\<forall>k\<in>set RESET_KEYS. map_of d k = Some DASH \<Longrightarrow>
   \<forall>k\<in>set RESET_KEYS. map_of (fst (process_rows headers rows (d, acc))) k = Some DASH"
proof (induction rows arbitrary: d acc)
  case Nil
  then show ?case by simp
next
  case (Cons row rows)
  obtain d1 acc1 where s: "process_row headers row (d, acc) = (d1, acc1)"
    by (cases "process_row headers row (d, acc)")
  with process_row_keeps_reset [OF Cons.prems, of headers row acc]
  have "\<forall>k\<in>set RESET_KEYS. map_of d1 k = Some DASH" by simp
  then have "\<forall>k\<in>set RESET_KEYS. map_of (fst (process_rows headers rows (d1, acc1))) k = Some DASH"
    by (rule Cons.IH)
  with s show ?case by simp
qed

lemma process_rows_reset:
  "\<exists>row\<in>set rows. find_first section_cell row = None \<Longrightarrow>
   \<forall>k\<in>set RESET_KEYS. map_of (fst (process_rows headers rows (d, acc))) k = Some DASH"
proof (induction rows arbitrary: d acc)
  case Nil
  then show ?case by simp
next
  case (Cons row rows)
  show ?case
  proof (cases "find_first section_cell row")
    case None
    let ?r = "enumerate_columns headers 0 (cells row) d"
    have "\<forall>k\<in>set RESET_KEYS. map_of (reset_row_fields ?r) k = Some DASH"
      by (simp add: map_of_reset_row_fields)
    then have "\<forall>k\<in>set RESET_KEYS.
        map_of (fst (process_rows headers rows (reset_row_fields ?r, acc @ [?r]))) k = Some DASH"
      by (rule process_rows_keep_reset)
    with None show ?thesis by (simp add: process_row_data)
  next
    case (Some th)
    with Cons.prems have "\<exists>row\<in>set rows. find_first section_cell row = None" by auto
    from Cons.IH [OF this] Some show ?thesis by (simp add: process_row_section)
  qed
qed

lemma process_rows_other:
  assumes "k \<notin> set RESET_KEYS" and "\<not> (k \<in> set headers \<and> field_header k)"
  shows "map_of (fst (process_rows headers rows (d, acc))) k =
    (if k = KEY_SECTION then running_label rows (map_of d KEY_SECTION) else map_of d k)"
proof (induction rows arbitrary: d acc)
  case Nil
  then show ?case by simp
next
  case (Cons row rows)
  show ?case
  proof (cases "find_first section_cell row")
    case None
    let ?r = "enumerate_columns headers 0 (cells row) d"
    have same: "map_of ?r k' = map_of d k'" if "\<not> (k' \<in> set headers \<and> field_header k')" for k'
      using that by (intro enumerate_columns_other) auto
    from assms same [of k] have k: "map_of (reset_row_fields ?r) k = map_of d k"
      by (simp add: map_of_reset_row_fields)
    show ?thesis
    proof (cases "k = KEY_SECTION")
      case True
      with None k Cons.IH [of "reset_row_fields ?r" "acc @ [?r]"] show ?thesis
        by (simp add: process_row_data)
    next
      case False
      with None k Cons.IH [of "reset_row_fields ?r" "acc @ [?r]"] show ?thesis
        by (simp add: process_row_data)
    qed
  next
    case (Some th)
    with Cons.IH [of "AList.update KEY_SECTION (strip (get_text th)) d" acc] show ?thesis
      by (simp add: process_row_section)
  qed
qed

text \<open>
  C6, as amended. For a row without a \<open>th\<close> that has a \<open>colspan\<close>, the loop appends
  the record of the row and goes on to the next row with a dict in which the six fields of
  \<open>RESET_KEYS\<close> (trim name, production period, recommended price, engine make, body make,
  starred price) are \<open>"-"\<close> and the section label is the one of the record just appended.
  Let such a row \<open>row2\<close> come after rows \<open>before\<close> among which there is another such
  row, and let \<open>row2\<close> have a cell for every header that names a field outside the six
  fixed ones. Then nothing that the cells of an earlier row set reaches the record of
  \<open>row2\<close>: under each key it holds what its own cells give; failing that \<open>"-"\<close> for the six
  fixed fields, the running section label (the text of the last section row before it, or
  the label the loop started with) for the section key, and for any other key what the
  dict held when the loop started. A row with a \<open>th\<close> that has a \<open>colspan\<close> sets the
  section label to the stripped text of that cell and appends nothing.
\<close>

theorem data_row_resets_fixed_fields:
  assumes earlier: "\<exists>row\<in>set before. find_first section_cell row = None"
    and row2: "find_first section_cell row2 = None"
    and cover: "\<forall>i<length headers. field_header (headers ! i) \<and> headers ! i \<notin> set RESET_KEYS
      \<longrightarrow> i < length (find_all (named ''td'') row2)"
  shows "(\<forall>row rows data acc. find_first section_cell row = None \<longrightarrow>
        (\<exists>data'. process_rows headers (row # rows) (data, acc) =
            process_rows headers rows
              (data', acc @ [enumerate_columns headers 0 (find_all (named ''td'') row) data])
          \<and> (\<forall>k\<in>set RESET_KEYS. map_of data' k = Some DASH)
          \<and> map_of data' KEY_SECTION =
              map_of (enumerate_columns headers 0 (find_all (named ''td'') row) data) KEY_SECTION))
    \<and> (\<exists>d acc' r2. process_rows headers before (data0, acc0) = (d, acc')
        \<and> process_rows headers (before @ row2 # rest) (data0, acc0) =
            process_rows headers rest (reset_row_fields r2, acc' @ [r2])
        \<and> r2 = enumerate_columns headers 0 (find_all (named ''td'') row2) d
        \<and> (\<forall>k\<in>set RESET_KEYS. map_of d k = Some DASH)
        \<and> (\<forall>k. map_of r2 k =
             (case map_of (enumerate_columns headers 0 (find_all (named ''td'') row2) []) k of
                Some v \<Rightarrow> Some v
              | None \<Rightarrow>
                  if k \<in> set RESET_KEYS then Some DASH
                  else if k = KEY_SECTION then running_label before (map_of data0 KEY_SECTION)
                  else map_of data0 k)))
    \<and> (\<forall>s th d0 acc1 rows0. find_first section_cell s = Some th \<longrightarrow>
          process_rows headers (s # rows0) (d0, acc1) =
            process_rows headers rows0 (AList.update KEY_SECTION (strip (get_text th)) d0, acc1))"
proof (intro conjI)
  show "\<forall>row rows data acc. find_first section_cell row = None \<longrightarrow>
        (\<exists>data'. process_rows headers (row # rows) (data, acc) =
            process_rows headers rows
              (data', acc @ [enumerate_columns headers 0 (find_all (named ''td'') row) data])
          \<and> (\<forall>k\<in>set RESET_KEYS. map_of data' k = Some DASH)
          \<and> map_of data' KEY_SECTION =
              map_of (enumerate_columns headers 0 (find_all (named ''td'') row) data) KEY_SECTION)"
  proof (intro allI impI)
    fix row rows data acc
    assume row: "find_first section_cell row = None"
    let ?r = "enumerate_columns headers 0 (find_all (named ''td'') row) data"
    have "process_rows headers (row # rows) (data, acc) =
        process_rows headers rows (reset_row_fields ?r, acc @ [?r])"
      using row by (simp add: process_row_data cells_def)
    moreover have "\<forall>k\<in>set RESET_KEYS. map_of (reset_row_fields ?r) k = Some DASH"
      by (simp add: map_of_reset_row_fields)
    moreover have "map_of (reset_row_fields ?r) KEY_SECTION = map_of ?r KEY_SECTION"
      using section_not_reset by (simp add: map_of_reset_row_fields)
    ultimately show "\<exists>data'. process_rows headers (row # rows) (data, acc) =
            process_rows headers rows (data', acc @ [?r])
          \<and> (\<forall>k\<in>set RESET_KEYS. map_of data' k = Some DASH)
          \<and> map_of data' KEY_SECTION = map_of ?r KEY_SECTION"
      by blast
  qed
  let ?c2 = "find_all (named ''td'') row2"
  obtain d acc' where pre: "process_rows headers before (data0, acc0) = (d, acc')"
    by (cases "process_rows headers before (data0, acc0)")
  let ?r2 = "enumerate_columns headers 0 ?c2 d"
  have all: "process_rows headers (before @ row2 # rest) (data0, acc0) =
      process_rows headers rest (reset_row_fields ?r2, acc' @ [?r2])"
    using pre row2 by (simp add: process_rows_append process_row_data cells_def)
  have dreset: "\<forall>k\<in>set RESET_KEYS. map_of d k = Some DASH"
    using process_rows_reset [OF earlier, of headers data0 acc0] pre by simp
  have nofield: "\<not> (k \<in> set headers \<and> field_header k)"
    if none: "map_of (enumerate_columns headers 0 ?c2 []) k = None" and k: "k \<notin> set RESET_KEYS"
    for k
  proof
    assume "k \<in> set headers \<and> field_header k"
    then obtain i where i: "i < length headers" "headers ! i = k" "field_header (headers ! i)"
      by (auto simp: in_set_conv_nth)
    with cover k have "i < length ?c2" by auto
    with i have "headers ! (0 + i) \<in> keys (enumerate_columns headers 0 ?c2 [])"
      by (intro enumerate_columns_written) simp_all
    with i none show False by (simp add: map_of_None_keys)
  qed
  have each: "map_of ?r2 k =
      (case map_of (enumerate_columns headers 0 ?c2 []) k of
         Some v \<Rightarrow> Some v
       | None \<Rightarrow>
           if k \<in> set RESET_KEYS then Some DASH
           else if k = KEY_SECTION then running_label before (map_of data0 KEY_SECTION)
           else map_of data0 k)" for k
  proof (cases "map_of (enumerate_columns headers 0 ?c2 []) k")
    case (Some v)
    then show ?thesis
      using enumerate_columns_over [of headers 0 ?c2 d k] by simp
  next
    case None
    then have r2: "map_of ?r2 k = map_of d k"
      using enumerate_columns_over [of headers 0 ?c2 d k] by simp
    show ?thesis
    proof (cases "k \<in> set RESET_KEYS")
      case True
      with r2 dreset None show ?thesis by simp
    next
      case False
      from process_rows_other [OF False nofield [OF None False], of before data0 acc0] pre
      have "map_of d k =
          (if k = KEY_SECTION then running_label before (map_of data0 KEY_SECTION)
           else map_of data0 k)"
        by simp
      with False r2 None show ?thesis by simp
    qed
  qed
  from pre all dreset each
  show "\<exists>d acc' r2. process_rows headers before (data0, acc0) = (d, acc')
        \<and> process_rows headers (before @ row2 # rest) (data0, acc0) =
            process_rows headers rest (reset_row_fields r2, acc' @ [r2])
        \<and> r2 = enumerate_columns headers 0 ?c2 d
        \<and> (\<forall>k\<in>set RESET_KEYS. map_of d k = Some DASH)
        \<and> (\<forall>k. map_of r2 k =
             (case map_of (enumerate_columns headers 0 ?c2 []) k of
                Some v \<Rightarrow> Some v
              | None \<Rightarrow>
                  if k \<in> set RESET_KEYS then Some DASH
                  else if k = KEY_SECTION then running_label before (map_of data0 KEY_SECTION)
                  else map_of data0 k))"
    by blast
  show "\<forall>s th d0 acc1 rows0. find_first section_cell s = Some th \<longrightarrow>
          process_rows headers (s # rows0) (d0, acc1) =
            process_rows headers rows0 (AList.update KEY_SECTION (strip (get_text th)) d0, acc1)"
    by (simp add: process_row_section)
qed

lemma section_of_section_tr:
  "find_first section_cell section_tr =
     Some (Tag ''th'' [(''colspan'', AttrStr (ascii ''3''))] [NavigableString (ascii '' Sport '')])"
  by (simp add: find_first_def find_all_def section_tr_def section_cell_def named_def has_attr_def)

lemma no_section_tr1: "find_first section_cell full_tr1 = None"
  by (simp add: find_first_def find_all_def full_tr1_def td_cell_def section_cell_def named_def)

lemma no_section_tr2: "find_first section_cell full_tr2 = None"
  by (simp add: find_first_def find_all_def full_tr2_def td_cell_def section_cell_def named_def)

lemma no_section_short: "find_first section_cell short_tr = None"
  by (simp add: find_first_def find_all_def short_tr_def td_cell_def section_cell_def named_def)

lemma cells_tr1:
  "find_all (named ''td'') full_tr1 = [td_cell ''  1.6   l '', td_cell ''AT'', td_cell ''x'']"
  by (simp add: find_all_def full_tr1_def td_cell_def named_def)

lemma cells_tr2:
  "find_all (named ''td'') full_tr2 = [td_cell ''2.0 l'', td_cell ''MT'', td_cell ''x'']"
  by (simp add: find_all_def full_tr2_def td_cell_def named_def)

lemma cells_short: "find_all (named ''td'') short_tr = [td_cell ''2.0 l'']"
  by (simp add: find_all_def short_tr_def td_cell_def named_def)

lemma own_tr1:
  "enumerate_columns (read_headers header_tr) 0 (find_all (named ''td'') full_tr1) [] =
     [(ascii ''Engine'', ascii ''1.6 l''), (ascii ''Gearbox'', ascii ''AT'')]"
  by (simp add: headers_header_tr cells_tr1 field_header_def COMPARE_def ascii_def cell_value_def
      td_cell_def strip_def isspace_def)

lemma own_tr2:
  "enumerate_columns (read_headers header_tr) 0 (find_all (named ''td'') full_tr2) [] =
     [(ascii ''Engine'', ascii ''2.0 l''), (ascii ''Gearbox'', ascii ''MT'')]"
  by (simp add: headers_header_tr cells_tr2 field_header_def COMPARE_def ascii_def cell_value_def
      td_cell_def strip_def isspace_def)

lemma own_short:
  "enumerate_columns (read_headers header_tr) 0 (find_all (named ''td'') short_tr) [] =
     [(ascii ''Engine'', ascii ''2.0 l'')]"
  by (simp add: headers_header_tr cells_short field_header_def COMPARE_def ascii_def cell_value_def
      td_cell_def strip_def isspace_def)

lemma sample_keys:
  "ascii ''Gearbox'' \<notin> set RESET_KEYS" "ascii ''Gearbox'' \<noteq> KEY_SECTION"
  "ascii ''Gearbox'' \<noteq> ascii ''Engine''" "KEY_TRIM \<in> set RESET_KEYS"
  "KEY_BRAND \<notin> set RESET_KEYS" "KEY_BRAND \<noteq> KEY_SECTION"
  "KEY_SECTION \<noteq> ascii ''Engine''" "KEY_SECTION \<noteq> ascii ''Gearbox''"
  "KEY_TRIM \<noteq> ascii ''Engine''" "KEY_TRIM \<noteq> ascii ''Gearbox''"
  "KEY_BRAND \<noteq> ascii ''Engine''" "KEY_BRAND \<noteq> ascii ''Gearbox''"
  "ascii ''AT'' \<noteq> DASH"
  by (simp_all add: RESET_KEYS_def KEY_SECTION_def KEY_TRIM_def KEY_PERIOD_def KEY_LIST_PRICE_def
      KEY_ENGINE_def KEY_BODY_def KEY_PRICE_STAR_def KEY_BRAND_def DASH_def ascii_def)

lemma context0_brand: "map_of (placeholders context0) KEY_BRAND = Some (ascii ''Lada'')"
  by (simp add: map_of_placeholders PLACEHOLDER_KEYS_def context0_def generation_data_def
      KEY_SECTION_def KEY_TRIM_def KEY_PERIOD_def KEY_LIST_PRICE_def KEY_ENGINE_def KEY_BODY_def
      KEY_TYPE_def KEY_BRAND_def KEY_MODEL_def KEY_COUNTRY_def KEY_DESCRIPTION_def)


lemma strip_sport: "strip (ascii '' Sport '') = ascii ''Sport''"
  by (simp add: strip_def ascii_def isspace_def)

theorem data_row_resets_fixed_fields_witness:
  "\<exists>r1 r2.
     process_rows (read_headers header_tr) [section_tr, full_tr1, full_tr2]
       (placeholders context0, []) = (reset_row_fields r2, [r1, r2])
   \<and> map_of r1 KEY_SECTION = Some (ascii ''Sport'')
   \<and> map_of r2 KEY_SECTION = Some (ascii ''Sport'')
   \<and> map_of r1 (ascii ''Gearbox'') = Some (ascii ''AT'')
   \<and> map_of r2 (ascii ''Gearbox'') = Some (ascii ''MT'')
   \<and> map_of r2 KEY_TRIM = Some DASH
   \<and> map_of r2 KEY_BRAND = Some (ascii ''Lada'')"
proof -
  let ?hs = "read_headers header_tr"
  let ?data = "AList.update KEY_SECTION (ascii ''Sport'') (placeholders context0)"
  let ?r1 = "enumerate_columns ?hs 0 (find_all (named ''td'') full_tr1) ?data"
  have earlier: "\<exists>row\<in>set [section_tr, full_tr1]. find_first section_cell row = None"
    using no_section_tr1 by simp
  have cover: "\<forall>i<length ?hs. field_header (?hs ! i) \<and> ?hs ! i \<notin> set RESET_KEYS
      \<longrightarrow> i < length (find_all (named ''td'') full_tr2)"
    by (simp add: headers_header_tr cells_tr2)
  have before: "process_rows ?hs [section_tr, full_tr1] (placeholders context0, []) =
      (reset_row_fields ?r1, [?r1])"
    by (simp add: process_row_section [OF section_of_section_tr] process_row_data [OF no_section_tr1]
        cells_def strip_sport)
  from data_row_resets_fixed_fields
    [of "[section_tr, full_tr1]" full_tr2 ?hs "placeholders context0" "[]" "[]",
      OF earlier no_section_tr2 cover]
  obtain d acc' r2 where
    pre: "process_rows ?hs [section_tr, full_tr1] (placeholders context0, []) = (d, acc')"
    and run: "process_rows ?hs ([section_tr, full_tr1] @ full_tr2 # []) (placeholders context0, []) =
      process_rows ?hs [] (reset_row_fields r2, acc' @ [r2])"
    and each: "\<forall>k. map_of r2 k =
      (case map_of (enumerate_columns ?hs 0 (find_all (named ''td'') full_tr2) []) k of
         Some v \<Rightarrow> Some v
       | None \<Rightarrow>
           if k \<in> set RESET_KEYS then Some DASH
           else if k = KEY_SECTION
             then running_label [section_tr, full_tr1] (map_of (placeholders context0) KEY_SECTION)
           else map_of (placeholders context0) k)"
    by blast
  from pre before have acc': "acc' = [?r1]" by simp
  have all: "process_rows ?hs [section_tr, full_tr1, full_tr2] (placeholders context0, []) =
      (reset_row_fields r2, [?r1, r2])"
    using run unfolding acc' by (simp only: append_Cons append_Nil process_rows.simps(1))
  have label: "running_label [section_tr, full_tr1] l = Some (ascii ''Sport'')" for l
    by (simp add: section_of_section_tr no_section_tr1 strip_sport)
  have r1: "map_of ?r1 k =
      (case map_of [(ascii ''Engine'', ascii ''1.6 l''), (ascii ''Gearbox'', ascii ''AT'')] k of
         None \<Rightarrow> map_of ?data k | Some v \<Rightarrow> Some v)" for k
    using enumerate_columns_over [of ?hs 0 "find_all (named ''td'') full_tr1" ?data k]
    by (simp add: own_tr1)
  have "map_of ?r1 KEY_SECTION = Some (ascii ''Sport'')"
    and "map_of ?r1 (ascii ''Gearbox'') = Some (ascii ''AT'')"
    using sample_keys by (simp_all add: r1)
  moreover have "map_of r2 KEY_SECTION = Some (ascii ''Sport'')"
    and "map_of r2 (ascii ''Gearbox'') = Some (ascii ''MT'')"
    and "map_of r2 KEY_TRIM = Some DASH"
    and "map_of r2 KEY_BRAND = Some (ascii ''Lada'')"
    using sample_keys section_not_reset context0_brand
    by (simp_all add: each [unfolded label] own_tr2)
  ultimately show ?thesis using all by blast
qed

lemma rows_ragged_table: "find_all (named ''tr'') ragged_table = [header_tr, full_tr1, short_tr]"
  by (simp add: find_all_def ragged_table_def header_tr_def full_tr1_def short_tr_def named_def
      th_cell_def td_cell_def)

text \<open>
  C6 as stated fails: on a page whose table has the headers \<open>Engine\<close> and \<open>Gearbox\<close>, a
  first row with a cell for each and a second row with one cell only, the second record
  has the gearbox of the first row. That value is carried from one data-row record to the
  next and is not the section label.
\<close>

theorem row_value_carried_forward_counterexample:
  "length ragged_records = 2
   \<and> map get_text (find_all (named ''td'') full_tr1) = [ascii ''  1.6   l '', ascii ''AT'', ascii ''x'']
   \<and> map get_text (find_all (named ''td'') short_tr) = [ascii ''2.0 l'']
   \<and> map_of (ragged_records ! 0) (ascii ''Gearbox'') = Some (ascii ''AT'')
   \<and> map_of (ragged_records ! 1) (ascii ''Engine'') = Some (ascii ''2.0 l'')
   \<and> map_of (ragged_records ! 1) (ascii ''Gearbox'') = Some (ascii ''AT'')
   \<and> ascii ''Gearbox'' \<noteq> KEY_SECTION \<and> ascii ''AT'' \<noteq> DASH"
proof -
  let ?hs = "read_headers header_tr"
  let ?r1 = "enumerate_columns ?hs 0 (find_all (named ''td'') full_tr1) (placeholders context0)"
  let ?r2 = "enumerate_columns ?hs 0 (find_all (named ''td'') short_tr) (reset_row_fields ?r1)"
  have t: "find_first trim_table (soup (Response 200 (in_page [ragged_table]))) = Some ragged_table"
    using find_table [of "[header_tr, full_tr1, short_tr]"] by (simp add: ragged_table_def)
  have recs: "ragged_records = [?r1, ?r2]"
    unfolding ragged_records_def
    using parse_rows_path [OF fetch_serves t rows_ragged_table, of WriteOK context0 state0]
    by (simp add: no_section_tr1 no_section_short process_row_data cells_def state0_def)
  have r1: "map_of ?r1 (ascii ''Gearbox'') = Some (ascii ''AT'')"
    using enumerate_columns_over [of ?hs 0 "find_all (named ''td'') full_tr1"
        "placeholders context0" "ascii ''Gearbox''"] sample_keys
    by (simp add: own_tr1)
  have "map_of ?r2 k =
      (case map_of [(ascii ''Engine'', ascii ''2.0 l'')] k of
         None \<Rightarrow> map_of (reset_row_fields ?r1) k | Some v \<Rightarrow> Some v)" for k
    using enumerate_columns_over [of ?hs 0 "find_all (named ''td'') short_tr"
        "reset_row_fields ?r1" k]
    by (simp add: own_short)
  then have r2: "map_of ?r2 (ascii ''Engine'') = Some (ascii ''2.0 l'')"
    "map_of ?r2 (ascii ''Gearbox'') = Some (ascii ''AT'')"
    using sample_keys r1 by (simp_all add: map_of_reset_row_fields)
  have "map get_text (find_all (named ''td'') full_tr1) = [ascii ''  1.6   l '', ascii ''AT'', ascii ''x'']"
    and "map get_text (find_all (named ''td'') short_tr) = [ascii ''2.0 l'']"
    by (simp_all add: cells_tr1 cells_short td_cell_def)
  with r1 r2 sample_keys show ?thesis unfolding recs by simp
qed

lemma parse_fetch_failed:
  "fst (fetch_url (requests_get e)) = None \<Longrightarrow> parse_car_generation_page e data st = (None, st)"
  by (simp add: parse_car_generation_page_def)

lemma parse_no_table:
  assumes "fst (fetch_url (requests_get e)) = Some response"
    and "find_first trim_table (soup response) = None"
  shows "parse_car_generation_page e data st =
      (None, st\<lparr>all_data := all_data st @ [placeholders data]\<rparr>)"
  using assms by (simp add: parse_car_generation_page_def Let_def)

lemma parse_no_rows:
  assumes "fst (fetch_url (requests_get e)) = Some response"
    and "find_first trim_table (soup response) = Some table"
    and "find_all (named ''tr'') table = []"
  shows "parse_car_generation_page e data st = (Some IndexError, st)"
proof -
  from assms(2) have "trim_table table" by (rule find_first_holds)
  then have "named ''table'' table" by (simp add: trim_table_def)
  then have "find_first (named ''table'') (Tag ''[document]'' [] [table]) = Some table"
    by (rule find_first_under_root)
  with assms show ?thesis
    by (simp add: parse_car_generation_page_def Let_def)
qed

lemma periodic_save_due:
  "SAVE_INTERVAL \<le> clock_check e - last_save_time st \<Longrightarrow>
   periodic_save e st = (save_data_to_excel (to_excel e) st)\<lparr>last_save_time := clock_saved e\<rparr>"
  by (simp add: periodic_save_def)

lemma save_ok: "save_data_to_excel WriteOK st = st\<lparr>output_file := Workbook (DataFrame (all_data st))\<rparr>"
  by (simp add: save_data_to_excel_def)

lemma save_failed: "save_data_to_excel (WriteFailed left) st = st\<lparr>output_file := left\<rparr>"
  by (simp add: save_data_to_excel_def)

lemma set_add_columns: "set (add_columns cols ks) = set cols \<union> set ks"
  by (induction ks arbitrary: cols) auto

lemma set_columns_of: "set (columns_of recs) = (\<Union>r\<in>set recs. keys r)"
  by (auto simp: columns_of_def set_add_columns keys_def)

lemma run_generation_pages_append:
  "run_generation_pages (xs @ ys) st = run_generation_pages ys (run_generation_pages xs st)"
proof (induction xs arbitrary: st)
  case Nil
  then show ?case by simp
next
  case (Cons x xs)
  obtain e data where x: "x = (e, data)" by (cases x)
  obtain err st' where r: "parse_car_generation_page e data st = (err, st')"
    by (cases "parse_car_generation_page e data st")
  show ?case
    using Cons.IH x r by (cases err) simp_all
qed

text \<open>
  C7, as amended. When the page is fetched, the table is found and has a first row, the task
  goes through the rows and then checks the clock: if at least \<open>SAVE_INTERVAL = 20\<close>
  seconds have passed since the last save, \<open>save_data_to_excel\<close> runs and
  \<open>last_save_time\<close> becomes the clock reading taken after it; when the write succeeds the
  file is the snapshot of the accumulator.
\<close>

theorem rows_path_runs_periodic_save:
  assumes fetch: "fst (fetch_url (requests_get e)) = Some response"
    and table: "find_first trim_table (soup response) = Some table"
    and rows: "find_all (named ''tr'') table = row0 # rows"
    and due: "clock_check e - last_save_time st \<ge> SAVE_INTERVAL"
  shows "last_save_time (snd (parse_car_generation_page e data st)) = clock_saved e
    \<and> (to_excel e = WriteOK \<longrightarrow>
         output_file (snd (parse_car_generation_page e data st)) =
           Workbook (DataFrame (all_data (snd (parse_car_generation_page e data st)))))
    \<and> SAVE_INTERVAL = 20"
proof -
  let ?st = "st\<lparr>all_data := snd (process_rows (read_headers row0) rows (placeholders data, all_data st))\<rparr>"
  from due have "SAVE_INTERVAL \<le> clock_check e - last_save_time ?st" by simp
  then have "periodic_save e ?st = (save_data_to_excel (to_excel e) ?st)\<lparr>last_save_time := clock_saved e\<rparr>"
    by (rule periodic_save_due)
  with parse_rows_path [OF fetch table rows, of data st]
  have "snd (parse_car_generation_page e data st) =
      (save_data_to_excel (to_excel e) ?st)\<lparr>last_save_time := clock_saved e\<rparr>"
    by simp
  then show ?thesis
    by (simp add: save_ok save_data_to_excel_def SAVE_INTERVAL_def split: write_outcome.splits)
qed

lemma find_full_table:
  "find_first trim_table (soup (Response 200 (in_page [full_table]))) = Some full_table"
  using find_table [of "[header_tr, full_tr1, full_tr2]"] by (simp add: full_table_def)

theorem rows_path_runs_periodic_save_witness:
  "last_save_time (snd (parse_car_generation_page (serves (in_page [full_table]) WriteOK)
       context0 state0)) = 101
   \<and> output_file (snd (parse_car_generation_page (serves (in_page [full_table]) WriteOK)
       context0 state0)) =
     Workbook (DataFrame (all_data (snd (parse_car_generation_page
       (serves (in_page [full_table]) WriteOK) context0 state0))))"
proof -
  have due: "clock_check (serves (in_page [full_table]) WriteOK) - last_save_time state0
      \<ge> SAVE_INTERVAL"
    by (simp add: serves_def state0_def SAVE_INTERVAL_def)
  from rows_path_runs_periodic_save
    [of "serves (in_page [full_table]) WriteOK" "Response 200 (in_page [full_table])" full_table
      header_tr "[full_tr1, full_tr2]" state0 context0,
      OF fetch_serves find_full_table rows_full_table due]
  show ?thesis by (simp add: serves_def)
qed

text \<open>
  C7 as stated fails on the two early returns: with 100 seconds since the last save, a page
  without the table appends its record and returns, and a page that cannot be fetched
  returns, both with the file and \<open>last_save_time\<close> untouched. On the rows path a write
  that fails leaves the file as the failed call left it.
\<close>

theorem early_return_skips_save_counterexample:
  "SAVE_INTERVAL \<le> clock_check (serves (in_page [Tag ''p'' [] []]) WriteOK) - last_save_time state0
   \<and> parse_car_generation_page (serves (in_page [Tag ''p'' [] []]) WriteOK) context0 state0 =
       (None, \<lparr>all_data = [placeholders context0], last_save_time = 0, output_file = NoFile,
          error_log = []\<rparr>)
   \<and> SAVE_INTERVAL \<le> clock_check unreachable - last_save_time state1
   \<and> parse_car_generation_page unreachable context0 state1 =
       (None, \<lparr>all_data = [placeholders context0], last_save_time = 0, output_file = NoFile,
          error_log = []\<rparr>)
   \<and> SAVE_INTERVAL \<le> clock_check (serves (in_page [full_table]) (WriteFailed NoFile))
        - last_save_time state0
   \<and> output_file (snd (parse_car_generation_page
        (serves (in_page [full_table]) (WriteFailed NoFile)) context0 state0)) = NoFile"
proof -
  have "parse_car_generation_page (serves (in_page [Tag ''p'' [] []]) WriteOK) context0 state0 =
       (None, \<lparr>all_data = [placeholders context0], last_save_time = 0, output_file = NoFile,
          error_log = []\<rparr>)"
    using parse_no_table [OF fetch_serves, of "in_page [Tag ''p'' [] []]" WriteOK context0 state0]
      find_no_table
    by (simp add: state0_def)
  moreover have "parse_car_generation_page unreachable context0 state1 =
       (None, \<lparr>all_data = [placeholders context0], last_save_time = 0, output_file = NoFile,
          error_log = []\<rparr>)"
    using parse_fetch_failed [OF fetch_unreachable, of context0 state1]
    by (simp add: state1_def)
  moreover have "output_file (snd (parse_car_generation_page
        (serves (in_page [full_table]) (WriteFailed NoFile)) context0 state0)) = NoFile"
    using parse_rows_path [OF fetch_serves find_full_table rows_full_table, of "WriteFailed NoFile"
        context0 state0]
    by (simp add: periodic_save_def save_failed serves_def state0_def)
  ultimately show ?thesis
    by (simp add: serves_def unreachable_def state0_def state1_def SAVE_INTERVAL_def)
qed

text \<open>
  C8, as amended. A save whose write succeeds replaces the file by the frame of
  \<open>all_data\<close>, whatever the file was before, and changes nothing else; so a second such
  save with no record appended in between gives the same state and the same file. The
  file then has one data row per record of \<open>all_data\<close>, its header is the union of the keys
  of all records, and the row of a record holds the record's value under each column (empty
  where the record lacks the key).
\<close>

theorem save_twice_same_file:
  "output_file (save_data_to_excel WriteOK st) = Workbook (DataFrame (all_data st))
   \<and> save_data_to_excel WriteOK (save_data_to_excel WriteOK st) = save_data_to_excel WriteOK st
   \<and> all_data (save_data_to_excel WriteOK st) = all_data st
   \<and> data_row_count (output_file (save_data_to_excel WriteOK st)) = Some (length (all_data st))
   \<and> set (header_row (DataFrame (all_data st))) = (\<Union>r\<in>set (all_data st). keys r)
   \<and> (\<forall>j<length (all_data st).
        data_rows (DataFrame (all_data st)) ! j =
          map (map_of (all_data st ! j)) (header_row (DataFrame (all_data st))))"
  by (simp add: save_ok data_row_count_def DataFrame_def set_columns_of)

theorem save_twice_same_file_witness:
  "output_file (save_data_to_excel WriteOK (save_data_to_excel WriteOK state1)) =
     output_file (save_data_to_excel WriteOK state1)
   \<and> data_row_count (output_file (save_data_to_excel WriteOK (save_data_to_excel WriteOK state1)))
       = Some 1
   \<and> data_rows (DataFrame (all_data state1)) ! 0 =
       map (map_of (placeholders context0)) (header_row (DataFrame (all_data state1)))"
proof -
  have l: "length (all_data state1) = 1" "all_data state1 ! 0 = placeholders context0"
    by (simp_all add: state1_def)
  from save_twice_same_file [of state1] l show ?thesis by auto
qed

text \<open>
  C8 as stated fails when the write raises: the exception is caught and logged, and two
  saves in a row over an accumulator of one record leave no file at all.
\<close>

theorem failed_write_leaves_file_counterexample:
  "all_data state1 = [placeholders context0]
   \<and> output_file (save_data_to_excel (WriteFailed NoFile)
        (save_data_to_excel (WriteFailed NoFile) state1)) = NoFile
   \<and> data_row_count (output_file (save_data_to_excel (WriteFailed NoFile)
        (save_data_to_excel (WriteFailed NoFile) state1))) \<noteq> Some (length (all_data state1))"
  by (simp add: save_failed data_row_count_def state1_def)

text \<open>
  C10. If the page is fetched and the matched table has no \<open>tr\<close> below it, then
  \<open>parse_car_generation_page\<close> raises \<open>IndexError\<close> and leaves the state as it was: no
  record is appended. The parent stage logs the exception and goes on: the tasks before and
  after it run as they would have otherwise.
\<close>

theorem table_without_rows_raises_IndexError:
  assumes fetch: "fst (fetch_url (requests_get e)) = Some response"
    and table: "find_first trim_table (soup response) = Some table"
    and rows: "find_all (named ''tr'') table = []"
  shows "parse_car_generation_page e data st = (Some IndexError, st)
    \<and> run_generation_pages (before @ (e, data) # after) st0 =
        run_generation_pages after
          ((run_generation_pages before st0)
             \<lparr>error_log := error_log (run_generation_pages before st0) @ [IndexError]\<rparr>)"
  using parse_no_rows [OF fetch table rows]
  by (simp add: run_generation_pages_append)

theorem table_without_rows_raises_IndexError_witness:
  "parse_car_generation_page (serves (in_page [empty_table]) WriteOK) context0 state1 =
     (Some IndexError, state1)
   \<and> run_generation_pages
       [(serves (in_page [Tag ''p'' [] []]) WriteOK, context0),
        (serves (in_page [empty_table]) WriteOK, context0),
        (serves (in_page [Tag ''p'' [] []]) WriteOK, [])] state0 =
     \<lparr>all_data = [placeholders context0, placeholders []], last_save_time = 0,
      output_file = NoFile, error_log = [IndexError]\<rparr>"
proof -
  have t: "find_first trim_table (soup (Response 200 (in_page [empty_table]))) = Some empty_table"
    using find_table [of "[]"] by (simp add: empty_table_def)
  have r: "find_all (named ''tr'') empty_table = []"
    by (simp add: find_all_def empty_table_def)
  have p: "parse_car_generation_page (serves (in_page [Tag ''p'' [] []]) WriteOK) d s =
      (None, s\<lparr>all_data := all_data s @ [placeholders d]\<rparr>)" for d s
    using parse_no_table [OF fetch_serves, of "in_page [Tag ''p'' [] []]" WriteOK d s] find_no_table
    by simp
  from table_without_rows_raises_IndexError
    [of "serves (in_page [empty_table]) WriteOK" "Response 200 (in_page [empty_table])" empty_table
      context0 state1 "[(serves (in_page [Tag ''p'' [] []]) WriteOK, context0)]"
      "[(serves (in_page [Tag ''p'' [] []]) WriteOK, [])]" state0,
      OF fetch_serves t r]
  show ?thesis by (simp add: p state0_def)
qed


end
